theory Spec2Isabelle
  imports Main
begin

section \<open>Data model of the flow package (flow/flow.go)\<close>

text \<open>
  Nodes are Go objects reached through pointers, and the builder mutates them in place
  (\<open>setNext\<close>), so the object graph is an explicit store: a map from addresses to node
  values. A \<open>Node\<close> interface value is an \<open>addr option\<close>, with \<open>None\<close> for \<open>nil\<close>.

  The functions wrapped by nodes and interceptors take the context and may do anything;
  they are state transformers on a world \<open>'s\<close> that also return their result.
  An \<open>error\<close> is an opaque non-nil value; a Go \<open>error\<close> result is an \<open>error option\<close>.
\<close>

type_synonym addr = nat

type_synonym error = string

text \<open>
  Ghost observations, appended to a trace by the semantics below: an interceptor was
  called with a node argument (\<open>None\<close> is the \<open>nil\<close> of a flow-level call), an action node
  called its function, a conditional node evaluated its predicate.
\<close>

datatype event = Intercepted string "addr option" | Acted addr | Tested addr bool

text \<open>
  \<open>type Interceptor func(context.Context, Node) error\<close>. The label is ghost: it only
  names the interceptor in the trace.
\<close>

datatype 's Interceptor =
  Interceptor (label: string) (call: "'s \<Rightarrow> addr option \<Rightarrow> error option \<times> 's")

text \<open>
  The five implementations of the \<open>Node\<close> interface: \<open>doNode\<close>, \<open>conditionalNode\<close>,
  \<open>sequenceNode\<close>, \<open>parallelNode\<close> (each embedding \<open>baseNode\<close>: name and next) and \<open>Flow\<close>
  (embedding \<open>base\<close>: name only). The field \<open>next\<close> is written \<open>nxt\<close>.
\<close>

datatype 's Node =
    doNode (name: string) (fn: "'s \<Rightarrow> error option \<times> 's") (nxt: "addr option")
  | conditionalNode (name: string) (condition: "'s \<Rightarrow> bool \<times> 's")
      (trueBranch: "addr option") (nxt: "addr option")
  | sequenceNode (name: string) (nodes: "addr option list") (nxt: "addr option")
  | parallelNode (name: string) (nodes: "addr option list") (nxt: "addr option")
  | Flow (name: string) (head: "addr option") (tail: "addr option")
      (flowInterceptors: "'s Interceptor list") (nodeInterceptors: "'s Interceptor list")

type_synonym 's heap = "addr \<Rightarrow> 's Node option"

section \<open>Execution: goroutines, one step at a time\<close>

text \<open>
  \<open>parallelNode.run\<close> starts goroutines, so execution is a machine of threads that take
  steps in an order chosen by a schedule. A thread is one goroutine. Its \<open>tasks\<close> are the
  calls it still has to make, first to last: in every \<open>run\<close> method each \<open>err != nil\<close>
  returns the error at once, up to the root of the goroutine, so a failure replaces
  everything the thread had left by \<open>TFail\<close>.

  A step is one of: the body of a \<open>run\<close> method up to the calls of \<open>run\<close> it makes (the
  interceptor loop and the node's own work), the return of a goroutine, one round of
  the receive loop, the closing of a channel. Steps are atomic, and goroutines
  interleave between steps. The store is not changed by running.

  \<^item> \<open>TRun a ints\<close>: the call \<open>a.run(ctx, ints)\<close>;
  \<^item> \<open>TFail e\<close>: \<open>return e\<close>, on its way out of the goroutine;
  \<^item> \<open>TRecv k\<close>: the loop \<open>for err := range errChan\<close> of the k-th call of
    \<open>parallelNode.run\<close>;
  \<^item> \<open>TWaitClose k\<close>: \<open>wg.Wait(); close(errChan)\<close> of that call.
\<close>

datatype 's task =
    TRun addr "'s Interceptor list"
  | TFail error
  | TRecv nat
  | TWaitClose nat

text \<open>
  \<open>Main\<close> is the goroutine that called \<open>Run\<close>; \<open>Unit k\<close> is one of the goroutines
  \<open>go func(node Node) {...}(node)\<close> of the k-th call of \<open>parallelNode.run\<close>, and \<open>Closer k\<close>
  its \<open>go func() { wg.Wait(); close(errChan) }()\<close>.
\<close>

datatype role = Main | Unit nat | Closer nat

datatype status = Running | Returned "error option"

record 's thread =
  role :: role
  tasks :: "'s task list"
  status :: status

text \<open>
  The locals \<open>errChan\<close> and \<open>wg\<close> of one call of \<open>parallelNode.run\<close>. The channel is made
  with capacity \<open>len(n.nodes)\<close> and every unit sends at most once, so a send never blocks
  and the buffer is a list without a bound.
\<close>

record sync =
  errChan :: "error list"
  closed :: bool
  wg :: nat

record 's config =
  world :: 's
  trace :: "event list"
  threads :: "'s thread list"
  syncs :: "sync list"

text \<open>
  \<open>for _, i := range interceptors { if err := i(ctx, n); err != nil { return err } }\<close>:
  the result, the world afterwards and the calls made.
\<close>

fun run_interceptors ::
  "'s Interceptor list \<Rightarrow> addr option \<Rightarrow> 's \<Rightarrow> error option \<times> 's \<times> event list" where
  "run_interceptors [] n w = (None, w, [])"
| "run_interceptors (i # is) n w =
     (case call i w n of
        (Some e, w') \<Rightarrow> (Some e, w', [Intercepted (label i) n])
      | (None, w') \<Rightarrow>
          (case run_interceptors is n w' of
             (r, w'', evs) \<Rightarrow> (r, w'', Intercepted (label i) n # evs)))"

text \<open>\<open>if x != nil { x.run(ctx, ints) }\<close>, for a next node, a branch or a sub-node.\<close>

fun call_run :: "addr option \<Rightarrow> 's Interceptor list \<Rightarrow> 's task list" where
  "call_run None ints = []"
| "call_run (Some a) ints = [TRun a ints]"

definition set_tasks :: "nat \<Rightarrow> 's task list \<Rightarrow> 's config \<Rightarrow> 's config" where
  "set_tasks tid ts c = c\<lparr>threads := (threads c)[tid := (threads c ! tid)\<lparr>tasks := ts\<rparr>]\<rparr>"

text \<open>The interceptor loop at the head of a \<open>run\<close> method, then the rest of the body.\<close>

definition intercepted ::
  "'s Interceptor list \<Rightarrow> addr option \<Rightarrow> nat \<Rightarrow> ('s config \<Rightarrow> 's config) \<Rightarrow>
   's config \<Rightarrow> 's config" where
  "intercepted ints n tid body c =
     (case run_interceptors ints n (world c) of
        (Some e, w, evs) \<Rightarrow> set_tasks tid [TFail e] (c\<lparr>world := w, trace := trace c @ evs\<rparr>)
      | (None, w, evs) \<Rightarrow> body (c\<lparr>world := w, trace := trace c @ evs\<rparr>))"

text \<open>
  The goroutines started by \<open>parallelNode.run\<close>: one per entry of \<open>n.nodes\<close>, running
  \<open>if node != nil { node.run(ctx, interceptors) }\<close>, then the one that closes the channel.
\<close>

definition spawn :: "nat \<Rightarrow> 's Interceptor list \<Rightarrow> addr option list \<Rightarrow> 's thread list" where
  "spawn k ints ns =
     map (\<lambda>n. \<lparr>role = Unit k, tasks = call_run n ints, status = Running\<rparr>) ns
     @ [\<lparr>role = Closer k, tasks = [TWaitClose k], status = Running\<rparr>]"

text \<open>
  One call \<open>a.run(ctx, ints)\<close> by thread \<open>tid\<close>, whose later tasks are \<open>rest\<close>: the body of
  the method up to the calls of \<open>run\<close> it makes, which become tasks. One equation per
  implementation of \<open>run\<close>, in the order of the source.
\<close>

fun run_node ::
  "addr \<Rightarrow> 's Node \<Rightarrow> 's Interceptor list \<Rightarrow> 's task list \<Rightarrow> nat \<Rightarrow> 's config \<Rightarrow> 's config"
  where
  "run_node a (doNode nm f nx) ints rest tid c =
     intercepted ints (Some a) tid
       (\<lambda>c1. case f (world c1) of
          (Some e, w) \<Rightarrow>
            set_tasks tid [TFail e] (c1\<lparr>world := w, trace := trace c1 @ [Acted a]\<rparr>)
        | (None, w) \<Rightarrow>
            set_tasks tid (call_run nx ints @ rest)
              (c1\<lparr>world := w, trace := trace c1 @ [Acted a]\<rparr>)) c"
| "run_node a (conditionalNode nm cnd tb nx) ints rest tid c =
     intercepted ints (Some a) tid
       (\<lambda>c1. case cnd (world c1) of
          (b, w) \<Rightarrow>
            set_tasks tid ((if b then call_run tb ints else []) @ call_run nx ints @ rest)
              (c1\<lparr>world := w, trace := trace c1 @ [Tested a b]\<rparr>)) c"
| "run_node a (sequenceNode nm ns nx) ints rest tid c =
     set_tasks tid (concat (map (\<lambda>n. call_run n ints) ns) @ call_run nx ints @ rest) c"
| "run_node a (parallelNode nm ns nx) ints rest tid c =
     intercepted ints (Some a) tid
       (\<lambda>c1. set_tasks tid (TRecv (length (syncs c1)) # call_run nx ints @ rest)
          (c1\<lparr>threads := threads c1 @ spawn (length (syncs c1)) ints ns,
              syncs := syncs c1 @ [\<lparr>errChan = [], closed = False, wg = length ns\<rparr>]\<rparr>)) c"
| "run_node a (Flow nm hdn tln fis nis) ints rest tid c =
     (case hdn of
        None \<Rightarrow> set_tasks tid rest c
      | Some b \<Rightarrow> intercepted fis None tid (set_tasks tid (TRun b nis # rest)) c)"

text \<open>
  A goroutine returns. A unit sends a non-nil result on the channel
  (\<open>if err := node.run(...); err != nil { errChan <- err }\<close>) and its deferred
  \<open>wg.Done()\<close> runs. (\<open>Done\<close> on a zero counter would panic in Go; the counter starts
  at the number of units and each unit decrements it once, so it is positive here.)
\<close>

definition sent :: "error option \<Rightarrow> sync \<Rightarrow> sync" where
  "sent r s =
     s\<lparr>errChan := errChan s @ (case r of None \<Rightarrow> [] | Some e \<Rightarrow> [e]), wg := wg s - 1\<rparr>"

definition finish :: "nat \<Rightarrow> error option \<Rightarrow> 's config \<Rightarrow> 's config" where
  "finish tid r c =
     (let c1 = c\<lparr>threads := (threads c)[tid := (threads c ! tid)\<lparr>tasks := [], status := Returned r\<rparr>]\<rparr>
      in case role (threads c ! tid) of
           Unit k \<Rightarrow> c1\<lparr>syncs := (syncs c)[k := sent r (syncs c ! k)]\<rparr>
         | _ \<Rightarrow> c1)"

text \<open>
  The first task of a thread. A receive on an empty open channel and a \<open>wg.Wait()\<close> on a
  non-zero counter block: the thread has no step (\<open>None\<close>). The loop over the channel
  returns the first error it receives (\<open>if err != nil { return err }\<close>) and ends when the
  channel is closed and drained. An address without an object, which no Go pointer
  is, gives no step either.
\<close>

fun run_task :: "'s heap \<Rightarrow> nat \<Rightarrow> 's task list \<Rightarrow> 's config \<Rightarrow> 's config option" where
  "run_task h tid [] c = Some (finish tid None c)"
| "run_task h tid (TFail e # rest) c = Some (finish tid (Some e) c)"
| "run_task h tid (TRun a ints # rest) c =
     (case h a of None \<Rightarrow> None | Some n \<Rightarrow> Some (run_node a n ints rest tid c))"
| "run_task h tid (TRecv k # rest) c =
     (if k < length (syncs c) then
        (case errChan (syncs c ! k) of
           e # es \<Rightarrow>
             Some (set_tasks tid [TFail e] (c\<lparr>syncs := (syncs c)[k := (syncs c ! k)\<lparr>errChan := es\<rparr>]\<rparr>))
         | [] \<Rightarrow> if closed (syncs c ! k) then Some (set_tasks tid rest c) else None)
      else None)"
| "run_task h tid (TWaitClose k # rest) c =
     (if k < length (syncs c) \<and> wg (syncs c ! k) = 0 then
        Some (set_tasks tid rest (c\<lparr>syncs := (syncs c)[k := (syncs c ! k)\<lparr>closed := True\<rparr>]\<rparr>))
      else None)"

definition step :: "'s heap \<Rightarrow> nat \<Rightarrow> 's config \<Rightarrow> 's config option" where
  "step h tid c =
     (if tid < length (threads c) \<and> status (threads c ! tid) = Running
      then run_task h tid (tasks (threads c ! tid)) c else None)"

text \<open>A schedule names the thread of each step; it is refused where that thread has none.\<close>

fun exec :: "'s heap \<Rightarrow> nat list \<Rightarrow> 's config \<Rightarrow> 's config option" where
  "exec h [] c = Some c"
| "exec h (tid # sched) c = (case step h tid c of None \<Rightarrow> None | Some c' \<Rightarrow> exec h sched c')"

text \<open>
  \<open>func (f *Flow) Run(ctx context.Context) error\<close> has the body of
  \<open>func (f *Flow) run(ctx, interceptors)\<close>, which never reads \<open>interceptors\<close>: the caller
  of \<open>Run\<close> is the thread 0, about to call \<open>f.run\<close>.
\<close>

definition Run :: "addr \<Rightarrow> 's \<Rightarrow> 's config" where
  "Run f w =
     \<lparr>world = w, trace = [],
      threads = [\<lparr>role = Main, tasks = [TRun f []], status = Running\<rparr>], syncs = []\<rparr>"

text \<open>What the examples look at: the world, the trace and the state of every thread.\<close>

definition observe :: "'s config \<Rightarrow> 's \<times> event list \<times> status list" where
  "observe c = (world c, trace c, map status (threads c))"

section \<open>Building flows\<close>

text \<open>
  \<open>InSequence(name, nodes...)\<close> and \<open>InParallel(name, nodes...)\<close> keep the arguments that
  are not \<open>nil\<close>, in order, and return a new node without a next.
\<close>

definition InSequence :: "string \<Rightarrow> addr option list \<Rightarrow> 's Node" where
  "InSequence nm ns = sequenceNode nm (filter (\<lambda>node. node \<noteq> None) ns) None"

definition InParallel :: "string \<Rightarrow> addr option list \<Rightarrow> 's Node" where
  "InParallel nm ns = parallelNode nm (filter (\<lambda>node. node \<noteq> None) ns) None"

text \<open>
  \<open>func (n *baseNode) setNext(next Node) { n.next = next }\<close>, on the value of a node
  that embeds \<open>baseNode\<close>. (\<open>Flow\<close> has its own method, below.)
\<close>

fun set_nxt :: "'s Node \<Rightarrow> addr option \<Rightarrow> 's Node" where
  "set_nxt (doNode nm f old) nx = doNode nm f nx"
| "set_nxt (conditionalNode nm cnd tb old) nx = conditionalNode nm cnd tb nx"
| "set_nxt (sequenceNode nm ns old) nx = sequenceNode nm ns nx"
| "set_nxt (parallelNode nm ns old) nx = parallelNode nm ns nx"
| "set_nxt (Flow nm hdn tln fis nis) nx = Flow nm hdn tln fis nis"

text \<open>\<open>f.tail = t\<close>, on the flow at address \<open>f\<close>.\<close>

definition set_tail :: "'s heap \<Rightarrow> addr \<Rightarrow> addr option \<Rightarrow> 's heap option" where
  "set_tail h f t =
     (case h f of
        Some (Flow nm hdn tln fis nis) \<Rightarrow> Some (h(f \<mapsto> Flow nm hdn t fis nis))
      | _ \<Rightarrow> None)"

text \<open>
  The call \<open>a.setNext(nx)\<close>, by the type of the object at address \<open>a\<close>. \<open>Flow.setNext\<close>
  does nothing without a tail; with one it calls \<open>setNext\<close> on the tail and then stores
  the argument as the new tail, so it recurses through the store and need not return:
  the result is an option, \<open>None\<close> when the call does not return (or when the address
  holds no object, which no Go pointer does).
\<close>

partial_function (option) setNext :: "'s heap \<Rightarrow> addr \<Rightarrow> addr option \<Rightarrow> 's heap option"
  where
  "setNext h a nx =
     (case h a of
        None \<Rightarrow> None
      | Some (Flow nm hdn tln fis nis) \<Rightarrow>
          (case tln of
             None \<Rightarrow> Some h
           | Some t \<Rightarrow> Option.bind (setNext h t nx) (\<lambda>h1. set_tail h1 a nx))
      | Some n \<Rightarrow> Some (h(a \<mapsto> set_nxt n nx)))"

text \<open>
  \<open>appendNode\<close> and \<open>appendFlow\<close> on the flow at address \<open>f\<close>. A flow with a head and no
  tail makes \<open>f.tail.setNext\<close> a call on \<open>nil\<close>, which panics: \<open>None\<close>. In \<open>appendFlow\<close>
  the argument's tail is read after the call of \<open>setNext\<close>, as in the source.
\<close>

definition appendNode :: "'s heap \<Rightarrow> addr \<Rightarrow> addr option \<Rightarrow> 's heap option" where
  "appendNode h f node =
     (case h f of
        Some (Flow nm hdn tln fis nis) \<Rightarrow>
          (case hdn of
             None \<Rightarrow> Some (h(f \<mapsto> Flow nm node node fis nis))
           | Some b \<Rightarrow>
               (case tln of
                  None \<Rightarrow> None
                | Some t \<Rightarrow> Option.bind (setNext h t node) (\<lambda>h1. set_tail h1 f node)))
      | _ \<Rightarrow> None)"

definition appendFlow :: "'s heap \<Rightarrow> addr \<Rightarrow> addr \<Rightarrow> 's heap option" where
  "appendFlow h f g =
     (case (h f, h g) of
        (Some (Flow nm hdn tln fis nis), Some (Flow gnm ghd gtl gfis gnis)) \<Rightarrow>
          (case ghd of
             None \<Rightarrow> Some h
           | Some gh \<Rightarrow>
               (case hdn of
                  None \<Rightarrow> Some (h(f \<mapsto> Flow nm ghd gtl fis nis))
                | Some b \<Rightarrow>
                    (case tln of
                       None \<Rightarrow> None
                     | Some t \<Rightarrow>
                         Option.bind (setNext h t ghd)
                           (\<lambda>h1. case h1 g of
                                   Some (Flow gnm1 ghd1 gtl1 gfis1 gnis1) \<Rightarrow> set_tail h1 f gtl1
                                 | _ \<Rightarrow> None))))
      | _ \<Rightarrow> None)"

text \<open>
  \<open>Then(node)\<close>: the type switch. A \<open>*Flow\<close> is spliced, any other node is appended, and
  \<open>nil\<close> matches neither case and panics (\<open>None\<close>).
\<close>

definition Then :: "'s heap \<Rightarrow> addr \<Rightarrow> addr option \<Rightarrow> 's heap option" where
  "Then h f node =
     (case node of
        None \<Rightarrow> None
      | Some a \<Rightarrow>
          (case h a of
             None \<Rightarrow> None
           | Some (Flow nm hdn tln fis nis) \<Rightarrow> appendFlow h f a
           | Some n \<Rightarrow> appendNode h f node))"

section \<open>Chains\<close>

text \<open>
  \<open>link h a\<close> is the next pointer of the node at \<open>a\<close>, when that is a node with a next
  field. \<open>chain h x as\<close> is the chain that starts at a head (or next) pointer \<open>x\<close>: it holds when
  following \<open>next\<close> from \<open>x\<close> visits exactly the addresses \<open>as\<close>, in order, and then reaches
  \<open>nil\<close>. The builder never links a \<open>Flow\<close> into a chain (\<open>Then\<close> splices it instead), so
  the nodes of a chain are of the four other types.
\<close>

definition link :: "'s heap \<Rightarrow> addr \<Rightarrow> addr option option" where
  "link h a =
     (case h a of
        None \<Rightarrow> None
      | Some (Flow nm hdn tln fis nis) \<Rightarrow> None
      | Some n \<Rightarrow> Some (nxt n))"

fun chain :: "'s heap \<Rightarrow> addr option \<Rightarrow> addr list \<Rightarrow> bool" where
  "chain h None as = (as = [])"
| "chain h (Some a) [] = False"
| "chain h (Some a) (b # bs) =
     (a = b \<and> (case link h a of None \<Rightarrow> False | Some y \<Rightarrow> chain h y bs))"

text \<open>The same for a chain made of action nodes only.\<close>

fun do_chain :: "'s heap \<Rightarrow> addr option \<Rightarrow> addr list \<Rightarrow> bool" where
  "do_chain h None as = (as = [])"
| "do_chain h (Some a) [] = False"
| "do_chain h (Some a) (b # bs) =
     (a = b \<and> (case h a of Some (doNode nm f nx) \<Rightarrow> do_chain h nx bs | _ \<Rightarrow> False))"

text \<open>
  The action nodes at \<open>as\<close> all succeed when run one after the other with the interceptors
  \<open>ints\<close>, starting in the world \<open>w\<close>: for each node the interceptor loop, then its function,
  as in \<open>doNode.run\<close>. The result is the world reached and the calls made; \<open>None\<close> when an
  interceptor or a function fails.
\<close>

fun acts_ok ::
  "'s heap \<Rightarrow> 's Interceptor list \<Rightarrow> addr list \<Rightarrow> 's \<Rightarrow> ('s \<times> event list) option" where
  "acts_ok h ints [] w = Some (w, [])"
| "acts_ok h ints (a # as) w =
     (case h a of
        Some (doNode nm f nx) \<Rightarrow>
          (case run_interceptors ints (Some a) w of
             (Some e, w1, evs1) \<Rightarrow> None
           | (None, w1, evs1) \<Rightarrow>
               (case f w1 of
                  (Some e, w2) \<Rightarrow> None
                | (None, w2) \<Rightarrow>
                    (case acts_ok h ints as w2 of
                       None \<Rightarrow> None
                     | Some (w3, evs) \<Rightarrow> Some (w3, evs1 @ Acted a # evs))))
      | _ \<Rightarrow> None)"

text \<open>The action nodes whose function was called, in the order of the calls.\<close>

fun actions :: "event list \<Rightarrow> addr list" where
  "actions [] = []"
| "actions (Acted a # evs) = a # actions evs"
| "actions (ev # evs) = actions evs"

section \<open>Invariants of the machine\<close>

text \<open>
  The calls of \<open>parallelNode.run\<close> are numbered in the order in which they make their
  channel; every unit and every receive loop belongs to a call that has made its own.
\<close>

definition known_syncs :: "'s config \<Rightarrow> bool" where
  "known_syncs c \<longleftrightarrow>
     (\<forall>t < length (threads c).
        (\<forall>k. role (threads c ! t) = Unit k \<longrightarrow> k < length (syncs c)) \<and>
        (\<forall>k. TRecv k \<in> set (tasks (threads c ! t)) \<longrightarrow> k < length (syncs c)))"

text \<open>
  The state of the \<open>k\<close>-th call of \<open>parallelNode.run\<close> while its caller, thread \<open>p\<close>, waits
  in the receive loop. Its units are the \<open>n\<close> threads from \<open>N\<close> on and nobody else receives
  from its channel; the counter of the wait group is the number of units still running;
  the channel holds the errors of the units that have returned one; it is closed only
  once the counter is zero.
\<close>

definition par_inv :: "nat \<Rightarrow> nat \<Rightarrow> nat \<Rightarrow> nat \<Rightarrow> 's config \<Rightarrow> bool" where
  "par_inv k N n p c \<longleftrightarrow>
     N + n \<le> length (threads c) \<and> k < length (syncs c) \<and> p < N \<and> known_syncs c \<and>
     (\<forall>t < length (threads c). (role (threads c ! t) = Unit k) = (N \<le> t \<and> t < N + n)) \<and>
     (\<forall>t < length (threads c). t \<noteq> p \<longrightarrow> TRecv k \<notin> set (tasks (threads c ! t))) \<and>
     wg (syncs c ! k) = card {i. i < n \<and> status (threads c ! (N + i)) = Running} \<and>
     set (errChan (syncs c ! k)) =
       {e. \<exists>i < n. status (threads c ! (N + i)) = Returned (Some e)} \<and>
     (closed (syncs c ! k) \<longrightarrow> wg (syncs c ! k) = 0)"

section \<open>Concrete flows\<close>

text \<open>The world of the examples is a counter.\<close>

definition pass :: "string \<Rightarrow> nat Interceptor" where
  "pass l = Interceptor l (\<lambda>w n. (None, w))"

definition refuse :: "nat Interceptor" where
  "refuse = Interceptor ''refuse'' (\<lambda>w n. (Some ''refused'', w + 1))"

definition bump :: "nat \<Rightarrow> error option \<times> nat" where
  "bump w = (None, w + 1)"

definition is_zero :: "nat \<Rightarrow> bool \<times> nat" where
  "is_zero w = (w = 0, w)"

definition always :: "nat \<Rightarrow> bool \<times> nat" where
  "always w = (True, w)"

definition boom :: "nat \<Rightarrow> error option \<times> nat" where
  "boom w = (Some ''boom'', w)"

definition empty_heap :: "nat heap" where
  "empty_heap = [0 \<mapsto> Flow ''empty'' None None [refuse] [refuse]]"

definition guarded_heap :: "nat heap" where
  "guarded_heap =
     [0 \<mapsto> Flow ''guarded'' (Some 1) (Some 1) [pass ''first'', refuse, pass ''late''] [],
      1 \<mapsto> doNode ''work'' bump None]"

definition nested_heap :: "nat heap" where
  "nested_heap =
     [0 \<mapsto> Flow ''outer'' (Some 1) (Some 1) [] [pass ''outer''],
      1 \<mapsto> conditionalNode ''c'' always (Some 2) None,
      2 \<mapsto> Flow ''inner'' (Some 3) (Some 3) [pass ''innerflow''] [pass ''inner''],
      3 \<mapsto> doNode ''x'' bump None]"

definition nested_call :: "nat config" where
  "nested_call =
     \<lparr>world = 0, trace = [],
      threads = [\<lparr>role = Main, tasks = [TRun 2 [pass ''outer'']], status = Running\<rparr>],
      syncs = []\<rparr>"

definition cond_heap :: "nat heap" where
  "cond_heap =
     [0 \<mapsto> Flow ''f'' (Some 1) (Some 4) [] [pass ''log''],
      1 \<mapsto> conditionalNode ''c'' is_zero (Some 2) (Some 4),
      2 \<mapsto> doNode ''x'' bump (Some 3),
      3 \<mapsto> doNode ''x2'' bump None,
      4 \<mapsto> doNode ''y'' bump None]"

definition cond_call :: "nat config" where
  "cond_call =
     \<lparr>world = 0, trace = [],
      threads = [\<lparr>role = Main, tasks = [TRun 1 [pass ''log'']], status = Running\<rparr>],
      syncs = []\<rparr>"

definition par_heap :: "nat heap" where
  "par_heap =
     [0 \<mapsto> Flow ''f'' (Some 1) (Some 1) [] [],
      1 \<mapsto> parallelNode ''p'' [Some 2, Some 3] None,
      2 \<mapsto> doNode ''A'' boom None,
      3 \<mapsto> doNode ''B'' bump None]"

definition seq_heap :: "nat heap" where
  "seq_heap =
     [0 \<mapsto> Flow ''f'' (Some 1) (Some 3) [] [pass ''log''],
      1 \<mapsto> sequenceNode ''s'' [] (Some 2),
      2 \<mapsto> parallelNode ''p'' [] (Some 3),
      3 \<mapsto> doNode ''after'' bump None]"

definition par_call :: "nat config" where
  "par_call =
     \<lparr>world = 0, trace = [],
      threads = [\<lparr>role = Main, tasks = [TRun 1 [pass ''log'', pass ''audit'']], status = Running\<rparr>],
      syncs = []\<rparr>"

definition chain_heap :: "nat heap" where
  "chain_heap =
     [0 \<mapsto> Flow ''f'' (Some 1) (Some 4) [] [pass ''log''],
      1 \<mapsto> doNode ''a'' bump (Some 2),
      2 \<mapsto> doNode ''b'' bump (Some 3),
      3 \<mapsto> doNode ''c'' boom (Some 4),
      4 \<mapsto> doNode ''d'' bump None]"

definition splice_heap :: "nat heap" where
  "splice_heap =
     [0 \<mapsto> Flow ''f'' (Some 1) (Some 2) [] [pass ''one''],
      1 \<mapsto> doNode ''a'' bump (Some 2),
      2 \<mapsto> doNode ''b'' bump None,
      5 \<mapsto> Flow ''g'' (Some 6) (Some 7) [pass ''gflow''] [pass ''two''],
      6 \<mapsto> doNode ''u'' bump (Some 7),
      7 \<mapsto> doNode ''v'' bump None]"

definition spliced_heap :: "nat heap" where
  "spliced_heap =
     [0 \<mapsto> Flow ''f'' (Some 1) (Some 7) [] [pass ''one''],
      1 \<mapsto> doNode ''a'' bump (Some 2),
      2 \<mapsto> doNode ''b'' bump (Some 6),
      5 \<mapsto> Flow ''g'' (Some 6) (Some 7) [pass ''gflow''] [pass ''two''],
      6 \<mapsto> doNode ''u'' bump (Some 7),
      7 \<mapsto> doNode ''v'' bump None]"

definition failing :: "error \<Rightarrow> nat \<Rightarrow> error option \<times> nat" where
  "failing e w = (Some e, w)"

definition fail2_heap :: "nat heap" where
  "fail2_heap =
     [0 \<mapsto> Flow ''f'' (Some 1) (Some 1) [] [],
      1 \<mapsto> parallelNode ''p'' [Some 2, Some 3] (Some 4),
      2 \<mapsto> doNode ''A'' (failing ''A'') None,
      3 \<mapsto> doNode ''B'' (failing ''B'') None,
      4 \<mapsto> doNode ''after'' bump None]"

text \<open>
  Four configurations of a run on \<open>fail2_heap\<close>: the caller about to run the parallel node;
  the units started; both units returned, \<open>B\<close> first; the caller out of the receive loop.
\<close>

definition fail2_c0 :: "nat config" where
  "fail2_c0 =
     \<lparr>world = 0, trace = [],
      threads = [\<lparr>role = Main, tasks = [TRun 1 []], status = Running\<rparr>],
      syncs = []\<rparr>"

definition fail2_c1 :: "nat config" where
  "fail2_c1 =
     \<lparr>world = 0, trace = [],
      threads = [\<lparr>role = Main, tasks = [TRecv 0, TRun 4 []], status = Running\<rparr>,
                 \<lparr>role = Unit 0, tasks = [TRun 2 []], status = Running\<rparr>,
                 \<lparr>role = Unit 0, tasks = [TRun 3 []], status = Running\<rparr>,
                 \<lparr>role = Closer 0, tasks = [TWaitClose 0], status = Running\<rparr>],
      syncs = [\<lparr>errChan = [], closed = False, wg = 2\<rparr>]\<rparr>"

definition fail2_c2 :: "nat config" where
  "fail2_c2 =
     \<lparr>world = 0, trace = [Acted 3, Acted 2],
      threads = [\<lparr>role = Main, tasks = [TRecv 0, TRun 4 []], status = Running\<rparr>,
                 \<lparr>role = Unit 0, tasks = [], status = Returned (Some ''A'')\<rparr>,
                 \<lparr>role = Unit 0, tasks = [], status = Returned (Some ''B'')\<rparr>,
                 \<lparr>role = Closer 0, tasks = [TWaitClose 0], status = Running\<rparr>],
      syncs = [\<lparr>errChan = [''B'', ''A''], closed = False, wg = 0\<rparr>]\<rparr>"

definition fail2_c3 :: "nat config" where
  "fail2_c3 =
     \<lparr>world = 0, trace = [Acted 3, Acted 2],
      threads = [\<lparr>role = Main, tasks = [TFail ''B''], status = Running\<rparr>,
                 \<lparr>role = Unit 0, tasks = [], status = Returned (Some ''A'')\<rparr>,
                 \<lparr>role = Unit 0, tasks = [], status = Returned (Some ''B'')\<rparr>,
                 \<lparr>role = Closer 0, tasks = [TWaitClose 0], status = Running\<rparr>],
      syncs = [\<lparr>errChan = [''A''], closed = False, wg = 0\<rparr>]\<rparr>"

section \<open>Basic facts about the machine\<close>

lemma run_interceptors_ok_events:
  "run_interceptors ints n w = (None, w', evs) \<Longrightarrow>
   evs = map (\<lambda>i. Intercepted (label i) n) ints"
  by (induction ints arbitrary: w evs) (auto split: prod.splits option.splits)

lemma run_interceptors_append:
  "run_interceptors pre n w = (None, w1, evs1) \<Longrightarrow>
   run_interceptors (pre @ post) n w =
     (case run_interceptors post n w1 of (r, w2, evs2) \<Rightarrow> (r, w2, evs1 @ evs2))"
  by (induction pre arbitrary: w evs1) (auto split: prod.splits option.splits)

lemma run_interceptors_fails_at:
  assumes "run_interceptors pre n w = (None, w1, evs1)" and "call i w1 n = (Some e, w2)"
  shows "run_interceptors (pre @ i # post) n w =
           (Some e, w2, map (\<lambda>j. Intercepted (label j) n) (pre @ [i]))"
  using run_interceptors_append [OF assms(1), of "i # post"] assms(2)
    run_interceptors_ok_events [OF assms(1)]
  by simp

lemma exec_append:
  "exec h (s1 @ s2) c = (case exec h s1 c of None \<Rightarrow> None | Some c1 \<Rightarrow> exec h s2 c1)"
  by (induction s1 arbitrary: c) (auto split: option.splits)

lemma set_tasks_simps [simp]:
  "world (set_tasks tid ts c) = world c"
  "trace (set_tasks tid ts c) = trace c"
  "syncs (set_tasks tid ts c) = syncs c"
  "threads (set_tasks tid ts c) = (threads c)[tid := (threads c ! tid)\<lparr>tasks := ts\<rparr>]"
  by (simp_all add: set_tasks_def)

lemma step_TRun:
  assumes "tid < length (threads c)" and "status (threads c ! tid) = Running"
    and "tasks (threads c ! tid) = TRun a ints # rest" and "h a = Some n"
  shows "step h tid c = Some (run_node a n ints rest tid c)"
  using assms by (simp add: step_def)

lemma finish_threads:
  "threads (finish tid r c) = (threads c)[tid := (threads c ! tid)\<lparr>tasks := [], status := Returned r\<rparr>]"
  by (simp add: finish_def Let_def split: role.splits)

lemma run_node_tasks:
  assumes "tid < length (threads c)"
  shows "(\<exists>e. tasks (threads (run_node a n ints rest tid c) ! tid) = [TFail e])
       \<or> (\<exists>new. tasks (threads (run_node a n ints rest tid c) ! tid) = new @ rest)"
  using assms
  by (cases n) (auto simp: intercepted_def nth_append split: prod.splits option.splits)

lemma run_node_length:
  "length (threads c) \<le> length (threads (run_node a n ints rest tid c))"
  by (cases n; auto simp: intercepted_def nth_append split: prod.splits option.splits)

lemma run_node_frame:
  "i < length (threads c) \<Longrightarrow> i \<noteq> tid \<Longrightarrow> threads (run_node a n ints rest tid c) ! i = threads c ! i"
  by (cases n; auto simp: intercepted_def nth_append split: prod.splits option.splits)+

lemma step_frame:
  assumes "step h t c = Some c'"
  shows "length (threads c) \<le> length (threads c')"
    and "i < length (threads c) \<Longrightarrow> i \<noteq> t \<Longrightarrow> threads c' ! i = threads c ! i"
proof -
  from assms have t: "t < length (threads c)" by (simp add: step_def split: if_splits)
  have "length (threads c) \<le> length (threads c') \<and>
        (i < length (threads c) \<longrightarrow> i \<noteq> t \<longrightarrow> threads c' ! i = threads c ! i)"
  proof (cases "tasks (threads c ! t)")
    case Nil
    with assms t show ?thesis by (auto simp: step_def finish_threads split: if_splits)
  next
    case (Cons x xs)
    show ?thesis
    proof (cases x)
      case (TRun a ints)
      with Cons assms obtain n where "c' = run_node a n ints xs t c"
        by (auto simp: step_def split: if_splits option.splits)
      then show ?thesis using run_node_frame [where c = c and a = a and n = n and ints = ints and rest = xs and tid = t and i = i]
          run_node_length [where c = c and a = a and n = n and ints = ints and rest = xs and tid = t] by auto
    next
      case (TFail e)
      with Cons assms show ?thesis by (auto simp: step_def finish_threads split: if_splits)
    next
      case (TRecv k)
      with Cons assms show ?thesis
        by (auto simp: step_def split: if_splits list.splits)
    next
      case (TWaitClose k)
      with Cons assms show ?thesis
        by (auto simp: step_def split: if_splits list.splits)
    qed
  qed
  then show "length (threads c) \<le> length (threads c')"
    and "i < length (threads c) \<Longrightarrow> i \<noteq> t \<Longrightarrow> threads c' ! i = threads c ! i" by auto
qed

lemma step_tasks_stack:
  assumes "step h tid c = Some c'" and "tasks (threads c ! tid) = t # ts"
  shows "(\<exists>e. tasks (threads c' ! tid) = [TFail e])
       \<or> (\<exists>new. tasks (threads c' ! tid) = new @ ts)
       \<or> (\<exists>r. status (threads c' ! tid) = Returned r)"
proof -
  from assms have tid: "tid < length (threads c)" by (simp add: step_def split: if_splits)
  show ?thesis
  proof (cases t)
    case (TRun a ints)
    with assms obtain n where "c' = run_node a n ints ts tid c"
      by (auto simp: step_def split: if_splits option.splits)
    then show ?thesis using run_node_tasks [OF tid, of a n ints ts] by auto
  next
    case (TFail e)
    with assms tid show ?thesis by (auto simp: step_def finish_threads split: if_splits)
  next
    case (TRecv k)
    with assms tid show ?thesis by (auto simp: step_def split: if_splits list.splits)
  next
    case (TWaitClose k)
    with assms tid show ?thesis by (auto simp: step_def split: if_splits list.splits)
  qed
qed

lemma exec_at_most_two:
  assumes s0: "\<And>t. t \<noteq> 0 \<Longrightarrow> step h t c0 = None" "step h 0 c0 = Some c1"
      and s1: "\<And>t. t \<noteq> 0 \<Longrightarrow> step h t c1 = None" "step h 0 c1 = Some c2"
      and s2: "\<And>t. step h t c2 = None"
      and ex: "exec h sched c0 = Some c"
  shows "sched = [] \<and> c = c0 \<or> sched = [0] \<and> c = c1 \<or> sched = [0, 0] \<and> c = c2"
proof (cases sched)
  case Nil
  with ex show ?thesis by simp
next
  case a: (Cons t1 r1)
  from ex a have "step h t1 c0 \<noteq> None" by (auto split: option.splits)
  with s0(1) have t1: "t1 = 0" by (cases "t1 = 0") auto
  with ex a s0(2) have e1: "exec h r1 c1 = Some c" by simp
  show ?thesis
  proof (cases r1)
    case Nil
    with a t1 e1 show ?thesis by simp
  next
    case b: (Cons t2 r2)
    from e1 b have "step h t2 c1 \<noteq> None" by (auto split: option.splits)
    with s1(1) have t2: "t2 = 0" by (cases "t2 = 0") auto
    with e1 b s1(2) have e2: "exec h r2 c2 = Some c" by simp
    show ?thesis
    proof (cases r2)
      case Nil
      with a b t1 t2 e2 show ?thesis by simp
    next
      case (Cons t3 r3)
      with e2 s2 show ?thesis by simp
    qed
  qed
qed

lemma step_solo: "length (threads c) = 1 \<Longrightarrow> t \<noteq> 0 \<Longrightarrow> step h t c = None"
  by (simp add: step_def)

lemma call_run_ints: "TRun b j \<in> set (call_run x ints) \<Longrightarrow> j = ints"
  by (cases x) auto

lemma spawn_ints:
  "i < length (spawn k ints ns) \<Longrightarrow> TRun b j \<in> set (tasks (spawn k ints ns ! i)) \<Longrightarrow> j = ints"
  by (auto simp: spawn_def nth_append dest: call_run_ints split: if_splits)

section \<open>Facts about chains and runs of a single thread\<close>

lemma chain_functional: "chain h x as \<Longrightarrow> chain h x bs \<Longrightarrow> as = bs"
proof (induction as arbitrary: x bs)
  case Nil
  then show ?case by (cases x; cases bs) auto
next
  case (Cons a as)
  then show ?case
    by (cases x; cases bs) (auto split: option.splits)
qed

lemma chain_suffix: "chain h x (as @ b # bs) \<Longrightarrow> chain h (Some b) (b # bs)"
proof (induction as arbitrary: x)
  case Nil
  then show ?case by (cases x) auto
next
  case (Cons a as)
  from Cons.prems obtain y where "chain h y (as @ b # bs)"
    by (cases x) (auto split: option.splits)
  then show ?case by (rule Cons.IH)
qed

lemma chain_distinct: "chain h x as \<Longrightarrow> distinct as"
proof (induction as arbitrary: x)
  case Nil
  then show ?case by simp
next
  case (Cons a as)
  from Cons.prems obtain y where x: "x = Some a" and tl: "chain h y as"
    by (cases x) (auto split: option.splits)
  have "a \<notin> set as"
  proof
    assume "a \<in> set as"
    then obtain us vs where as: "as = us @ a # vs" by (auto simp: in_set_conv_decomp)
    with tl have "chain h (Some a) (a # vs)" by (auto dest: chain_suffix)
    moreover from Cons.prems x have "chain h (Some a) (a # as)" by simp
    ultimately have "a # as = a # vs" by (rule chain_functional [rotated])
    with as show False by simp
  qed
  with Cons.IH [OF tl] show ?case by simp
qed

lemma do_chain_chain: "do_chain h x as \<Longrightarrow> chain h x as"
proof (induction as arbitrary: x)
  case Nil
  then show ?case by (cases x) auto
next
  case (Cons a as)
  then show ?case by (cases x) (auto simp: link_def split: option.splits Node.splits)
qed

lemma actions_append [simp]: "actions (xs @ ys) = actions xs @ actions ys"
  by (induction xs rule: actions.induct) auto

lemma actions_intercepted [simp]: "actions (map (\<lambda>i. Intercepted (label i) n) ints) = []"
  by (induction ints) auto

lemma acts_ok_events: "acts_ok h ints as w = Some (w', evs) \<Longrightarrow> actions evs = as"
proof (induction as arbitrary: w evs)
  case Nil
  then show ?case by simp
next
  case (Cons a as)
  then show ?case
    by (auto split: option.splits Node.splits prod.splits dest!: run_interceptors_ok_events)
qed

lemma exec_length_mono: "exec h s c = Some c' \<Longrightarrow> length (threads c) \<le> length (threads c')"
proof (induction s arbitrary: c)
  case Nil
  then show ?case by simp
next
  case (Cons t s)
  then obtain c1 where "step h t c = Some c1" "exec h s c1 = Some c'"
    by (auto split: option.splits)
  with Cons.IH [of c1] step_frame(1) [of h t c c1] show ?case by simp
qed

lemma solo_deterministic:
  assumes "exec h (replicate n 0) c0 = Some cn" and "length (threads cn) = 1"
      and "\<And>t. step h t cn = None" and "exec h sched c0 = Some c"
  shows "\<exists>m\<le>n. sched = replicate m 0"
  using assms
proof (induction n arbitrary: c0 sched)
  case 0
  then show ?case by (cases sched) auto
next
  case (Suc n)
  show ?case
  proof (cases sched)
    case Nil
    then show ?thesis by simp
  next
    case (Cons t s)
    with Suc.prems obtain c1 where st: "step h t c0 = Some c1" and ex: "exec h s c1 = Some c"
      by (auto split: option.splits)
    from Suc.prems(1,2) have "length (threads c0) \<le> 1"
      using exec_length_mono [of h "replicate (Suc n) 0" c0 cn] by simp
    with st have t: "t = 0" by (simp add: step_def split: if_splits)
    with st Suc.prems(1) have "exec h (replicate n 0) c1 = Some cn" by simp
    from Suc.IH [OF this Suc.prems(2,3) ex] obtain m where "m \<le> n" "s = replicate m 0" by auto
    with Cons t show ?thesis by (intro exI [of _ "Suc m"]) simp
  qed
qed

lemma exec_actions:
  assumes "do_chain h (Some a) (pre @ k # post)"
      and "acts_ok h ints pre w = Some (w1, evs1)"
  shows "exec h (replicate (length pre) 0)
           \<lparr>world = w, trace = tr,
            threads = [\<lparr>role = Main, tasks = [TRun a ints], status = Running\<rparr>], syncs = []\<rparr>
         = Some \<lparr>world = w1, trace = tr @ evs1,
                 threads = [\<lparr>role = Main, tasks = [TRun k ints], status = Running\<rparr>],
                 syncs = []\<rparr>"
  using assms
proof (induction pre arbitrary: a w tr evs1)
  case Nil
  then show ?case by simp
next
  case (Cons p pre)
  from Cons.prems(1) obtain nm f nx where a: "a = p" and p: "h p = Some (doNode nm f nx)"
    and rest: "do_chain h nx (pre @ k # post)"
    by (auto split: option.splits Node.splits)
  from rest obtain a' where nx: "nx = Some a'" by (cases nx) auto
  from Cons.prems(2) p obtain wi evsi w2 evs' where
    i: "run_interceptors ints (Some p) w = (None, wi, evsi)" and f: "f wi = (None, w2)"
    and ok: "acts_ok h ints pre w2 = Some (w1, evs')" and evs1: "evs1 = evsi @ Acted p # evs'"
    by (auto split: option.splits prod.splits)
  have st: "step h 0 \<lparr>world = w, trace = tr,
            threads = [\<lparr>role = Main, tasks = [TRun a ints], status = Running\<rparr>], syncs = []\<rparr>
    = Some \<lparr>world = w2, trace = (tr @ evsi @ [Acted p]),
            threads = [\<lparr>role = Main, tasks = [TRun a' ints], status = Running\<rparr>], syncs = []\<rparr>"
    using a p nx i f by (simp add: step_def intercepted_def set_tasks_def)
  from Cons.IH [OF rest [unfolded nx] ok, of "tr @ evsi @ [Acted p]"] st evs1
  show ?case by simp
qed

lemma replicate_plus_3: "replicate (n + 3) x = x # replicate n x @ [x, x]"
  by (induction n) (auto simp: numeral_3_eq_3)

lemma actions_set: "a \<in> set (actions tr) \<longleftrightarrow> Acted a \<in> set tr"
  by (induction tr rule: actions.induct) auto

lemma run_node_trace_mono: "set (trace c) \<subseteq> set (trace (run_node a n ints rest tid c))"
  by (cases n) (auto simp: intercepted_def split: prod.splits option.splits)

lemma finish_trace [simp]: "trace (finish tid r c) = trace c"
  by (simp add: finish_def Let_def split: role.splits)

lemma step_trace_mono:
  assumes "step h t c = Some c'"
  shows "set (trace c) \<subseteq> set (trace c')"
proof (cases "tasks (threads c ! t)")
  case Nil
  with assms show ?thesis by (auto simp: step_def split: if_splits)
next
  case (Cons x xs)
  show ?thesis
  proof (cases x)
    case (TRun a ints)
    with Cons assms obtain n where "c' = run_node a n ints xs t c"
      by (auto simp: step_def split: if_splits option.splits)
    then show ?thesis using run_node_trace_mono by blast
  qed (use Cons assms in \<open>auto simp: step_def split: if_splits list.splits\<close>)
qed

lemma exec_trace_mono: "exec h s c = Some c' \<Longrightarrow> set (trace c) \<subseteq> set (trace c')"
proof (induction s arbitrary: c)
  case Nil
  then show ?case by simp
next
  case (Cons t s)
  then obtain c1 where "step h t c = Some c1" "exec h s c1 = Some c'"
    by (auto split: option.splits)
  with Cons.IH [of c1] step_trace_mono [of h t c c1] show ?case by blast
qed

section \<open>Facts about the builder\<close>

lemma link_Some: "link h a = Some y \<longleftrightarrow> (\<exists>n. h a = Some n \<and> \<not> is_Flow n \<and> nxt n = y)"
  by (auto simp: link_def split: option.splits Node.splits)

lemma setNext_node:
  assumes "h t = Some n" and "\<not> is_Flow n"
  shows "setNext h t nx = Some (h(t \<mapsto> set_nxt n nx))"
  using assms by (cases n) (simp_all add: setNext.simps)

lemma set_nxt_props [simp]:
  "\<not> is_Flow n \<Longrightarrow> nxt (set_nxt n nx) = nx"
  "is_Flow (set_nxt n nx) = is_Flow n"
  by (cases n; simp)+

lemma run_node_set_nxt:
  assumes "\<not> is_Flow n" and "nxt n = None"
  shows "run_node t (set_nxt n (Some b)) ints rest tid c = run_node t n ints (TRun b ints # rest) tid c"
  using assms by (cases n) (auto simp: intercepted_def split: prod.splits option.splits)

lemma chain_link: "chain h x as \<Longrightarrow> a \<in> set as \<Longrightarrow> \<exists>y. link h a = Some y"
proof (induction as arbitrary: x)
  case Nil
  then show ?case by simp
next
  case (Cons b bs)
  then show ?case by (cases x) (auto split: option.splits)
qed

lemma chain_last: "chain h x as \<Longrightarrow> as \<noteq> [] \<Longrightarrow> link h (last as) = Some None"
proof (induction as arbitrary: x)
  case Nil
  then show ?case by simp
next
  case (Cons b bs)
  from Cons.prems obtain y where x: "x = Some b" and l: "link h b = Some y" and tl: "chain h y bs"
    by (cases x) (auto split: option.splits)
  show ?case
  proof (cases bs)
    case Nil
    with tl have "y = None" by (cases y) auto
    with l Nil show ?thesis by simp
  next
    case (Cons c cs)
    with Cons.IH [OF tl] show ?thesis by simp
  qed
qed

lemma chain_frame: "chain h x as \<Longrightarrow> (\<And>a. a \<in> set as \<Longrightarrow> link h' a = link h a) \<Longrightarrow> chain h' x as"
proof (induction as arbitrary: x)
  case Nil
  then show ?case by (cases x) auto
next
  case (Cons b bs)
  from Cons.prems(1) obtain y where x: "x = Some b" and l: "link h b = Some y" and tl: "chain h y bs"
    by (cases x) (auto split: option.splits)
  have "chain h' y bs" using tl Cons.prems(2) by (intro Cons.IH) auto
  with x l Cons.prems(2) [of b] show ?case by simp
qed

lemma chain_splice:
  assumes "chain h x as" and "as \<noteq> []" and "\<And>a. a \<in> set (butlast as) \<Longrightarrow> link h' a = link h a"
      and "link h' (last as) = Some y" and "chain h' y bs"
  shows "chain h' x (as @ bs)"
  using assms
proof (induction as arbitrary: x)
  case Nil
  then show ?case by simp
next
  case (Cons b as)
  from Cons.prems(1) obtain z where x: "x = Some b" and l: "link h b = Some z" and tl: "chain h z as"
    by (cases x) (auto split: option.splits)
  show ?case
  proof (cases as)
    case Nil
    with tl have "z = None" by (cases z) auto
    with Nil x Cons.prems(4,5) show ?thesis by simp
  next
    case (Cons c cs)
    with Cons.prems(3) [of b] l have lb: "link h' b = Some z" by simp
    have "chain h' z (as @ bs)"
    proof (rule Cons.IH [OF tl])
      show "as \<noteq> []" using Cons by simp
      show "link h' (last as) = Some y" using Cons.prems(4) Cons by simp
      show "chain h' y bs" by (rule Cons.prems(5))
      show "link h' a = link h a" if "a \<in> set (butlast as)" for a
        using that Cons Cons.prems(3) [of a] by simp
    qed
    with x lb show ?thesis by simp
  qed
qed

lemma link_upd_other: "a \<noteq> b \<Longrightarrow> link (h(b \<mapsto> n)) a = link h a"
  by (simp add: link_def)

section \<open>Facts about parallel nodes\<close>

lemma step_cases [consumes 1, case_names ret run recv_err recv_done close]:
  assumes "step h t c = Some c'"
  obtains
    (ret) r where "t < length (threads c)" "status (threads c ! t) = Running"
      "c' = finish t r c"
  | (run) a ints rest n where "t < length (threads c)" "status (threads c ! t) = Running"
      "tasks (threads c ! t) = TRun a ints # rest" "h a = Some n"
      "c' = run_node a n ints rest t c"
  | (recv_err) k rest e es where "t < length (threads c)" "status (threads c ! t) = Running"
      "tasks (threads c ! t) = TRecv k # rest" "k < length (syncs c)"
      "errChan (syncs c ! k) = e # es"
      "c' = set_tasks t [TFail e] (c\<lparr>syncs := (syncs c)[k := (syncs c ! k)\<lparr>errChan := es\<rparr>]\<rparr>)"
  | (recv_done) k rest where "t < length (threads c)" "status (threads c ! t) = Running"
      "tasks (threads c ! t) = TRecv k # rest" "k < length (syncs c)"
      "errChan (syncs c ! k) = []" "closed (syncs c ! k)" "c' = set_tasks t rest c"
  | (close) k rest where "t < length (threads c)" "status (threads c ! t) = Running"
      "tasks (threads c ! t) = TWaitClose k # rest" "k < length (syncs c)"
      "wg (syncs c ! k) = 0"
      "c' = set_tasks t rest (c\<lparr>syncs := (syncs c)[k := (syncs c ! k)\<lparr>closed := True\<rparr>]\<rparr>)"
proof -
  from assms have t: "t < length (threads c)" "status (threads c ! t) = Running"
    and rt: "run_task h t (tasks (threads c ! t)) c = Some c'"
    by (auto simp: step_def split: if_splits)
  show thesis
  proof (cases "tasks (threads c ! t)")
    case Nil
    with rt t ret show ?thesis by auto
  next
    case (Cons x xs)
    show ?thesis
    proof (cases x)
      case (TRun a ints)
      with Cons rt t run show ?thesis by (auto split: option.splits)
    next
      case (TFail e)
      with Cons rt t ret show ?thesis by auto
    next
      case (TRecv k)
      with Cons rt t recv_err recv_done show ?thesis
        by (auto split: if_splits list.splits)
    next
      case (TWaitClose k)
      with Cons rt t close show ?thesis by (auto split: if_splits)
    qed
  qed
qed

lemma call_run_no_recv: "TRecv k \<notin> set (call_run x ints)"
  by (cases x) auto

lemma run_node_effect:
  assumes t: "t < length (threads c)"
  obtains T S Y where
    "threads (run_node a n ints rest t c) = (threads c)[t := (threads c ! t)\<lparr>tasks := T\<rparr>] @ S"
    "syncs (run_node a n ints rest t c) = syncs c @ Y"
    "\<forall>k. TRecv k \<in> set T \<longrightarrow> TRecv k \<in> set rest \<or> (k = length (syncs c) \<and> Y \<noteq> [])"
    "\<forall>th \<in> set S. Y \<noteq> [] \<and> status th = Running
        \<and> (\<forall>k. role th = Unit k \<longrightarrow> k = length (syncs c))
        \<and> (\<forall>k. TRecv k \<notin> set (tasks th))"
proof -
  have "\<exists>T S Y.
    threads (run_node a n ints rest t c) = (threads c)[t := (threads c ! t)\<lparr>tasks := T\<rparr>] @ S
    \<and> syncs (run_node a n ints rest t c) = syncs c @ Y
    \<and> (\<forall>k. TRecv k \<in> set T \<longrightarrow> TRecv k \<in> set rest \<or> (k = length (syncs c) \<and> Y \<noteq> []))
    \<and> (\<forall>th \<in> set S. Y \<noteq> [] \<and> status th = Running
        \<and> (\<forall>k. role th = Unit k \<longrightarrow> k = length (syncs c))
        \<and> (\<forall>k. TRecv k \<notin> set (tasks th)))"
  proof (cases "\<exists>nm ns nx. n = parallelNode nm ns nx \<and> fst (run_interceptors ints (Some a) (world c)) = None")
    case True
    then obtain nm ns nx w evs where n: "n = parallelNode nm ns nx"
      and ri: "run_interceptors ints (Some a) (world c) = (None, w, evs)"
      by (cases "run_interceptors ints (Some a) (world c)") auto
    let ?T = "TRecv (length (syncs c)) # call_run nx ints @ rest"
    let ?S = "spawn (length (syncs c)) ints ns"
    let ?Y = "[\<lparr>errChan = [], closed = False, wg = length ns\<rparr>]"
    have "threads (run_node a n ints rest t c) = (threads c)[t := (threads c ! t)\<lparr>tasks := ?T\<rparr>] @ ?S"
      using n ri t by (simp add: intercepted_def list_update_append nth_append)
    moreover have "syncs (run_node a n ints rest t c) = syncs c @ ?Y"
      using n ri by (simp add: intercepted_def)
    moreover have "\<forall>k. TRecv k \<in> set ?T \<longrightarrow> TRecv k \<in> set rest \<or> (k = length (syncs c) \<and> ?Y \<noteq> [])"
      by (auto simp: call_run_no_recv)
    moreover have "\<forall>th \<in> set ?S. ?Y \<noteq> [] \<and> status th = Running
        \<and> (\<forall>k. role th = Unit k \<longrightarrow> k = length (syncs c))
        \<and> (\<forall>k. TRecv k \<notin> set (tasks th))"
      by (auto simp: spawn_def call_run_no_recv)
    ultimately show ?thesis by blast
  next
    case False
    then have "\<exists>T. threads (run_node a n ints rest t c) = (threads c)[t := (threads c ! t)\<lparr>tasks := T\<rparr>] @ []
      \<and> syncs (run_node a n ints rest t c) = syncs c @ []
      \<and> (\<forall>k. TRecv k \<in> set T \<longrightarrow> TRecv k \<in> set rest)"
      by (cases n) (auto simp: intercepted_def call_run_no_recv split: prod.splits option.splits)
    then show ?thesis by (metis empty_iff list.set(1))
  qed
  then show thesis using that by blast
qed

lemma nth_upd_app:
  assumes "i < length xs"
  shows "(xs[t := x] @ S) ! i = (if i = t then x else xs ! i)"
  using assms by (simp add: nth_append nth_list_update)

lemma par_inv_tasks_update:
  assumes inv: "par_inv k N n p c" and t: "t < length (threads c)" "t \<noteq> p"
      and th: "threads c' = (threads c)[t := (threads c ! t)\<lparr>tasks := T\<rparr>] @ S"
      and sy: "syncs c' = syncs c @ Y"
      and T: "\<forall>k'. TRecv k' \<in> set T \<longrightarrow>
                TRecv k' \<in> set (tasks (threads c ! t)) \<or> (k' = length (syncs c) \<and> Y \<noteq> [])"
      and S: "\<forall>th \<in> set S. Y \<noteq> [] \<and> status th = Running
                \<and> (\<forall>k'. role th = Unit k' \<longrightarrow> k' = length (syncs c))
                \<and> (\<forall>k'. TRecv k' \<notin> set (tasks th))"
  shows "par_inv k N n p c'"
proof -
  from inv have len: "N + n \<le> length (threads c)" and k: "k < length (syncs c)" and p: "p < N"
    and known: "known_syncs c"
    and roles: "\<And>u. u < length (threads c) \<Longrightarrow> (role (threads c ! u) = Unit k) = (N \<le> u \<and> u < N + n)"
    and norecv: "\<And>u. u < length (threads c) \<Longrightarrow> u \<noteq> p \<Longrightarrow> TRecv k \<notin> set (tasks (threads c ! u))"
    and wg: "wg (syncs c ! k) = card {i. i < n \<and> status (threads c ! (N + i)) = Running}"
    and ch: "set (errChan (syncs c ! k)) = {e. \<exists>i < n. status (threads c ! (N + i)) = Returned (Some e)}"
    and cl: "closed (syncs c ! k) \<longrightarrow> wg (syncs c ! k) = 0"
    by (auto simp: par_inv_def)
  have kr: "k' < length (syncs c)" if "u < length (threads c)" "role (threads c ! u) = Unit k'" for u k'
    using known that by (auto simp: known_syncs_def)
  have kt: "k' < length (syncs c)" if "u < length (threads c)" "TRecv k' \<in> set (tasks (threads c ! u))" for u k'
    using known that by (auto simp: known_syncs_def)
  have old: "role (threads c' ! u) = role (threads c ! u)"
            "status (threads c' ! u) = status (threads c ! u)"
            "tasks (threads c' ! u) = (if u = t then T else tasks (threads c ! u))"
    if "u < length (threads c)" for u
    using that by (simp_all add: th nth_upd_app)
  have new: "threads c' ! u \<in> set S" if "length (threads c) \<le> u" "u < length (threads c')" for u
    using that by (simp add: th nth_append)
  have syk: "syncs c' ! k = syncs c ! k" using k by (simp add: sy nth_append)
  have lenc': "length (threads c) \<le> length (threads c')" by (simp add: th)
  have units: "status (threads c' ! (N + i)) = status (threads c ! (N + i))" if "i < n" for i
    using that len by (intro old) simp
  have 1: "known_syncs c'"
    unfolding known_syncs_def
  proof (intro allI impI conjI)
    fix u k' assume u: "u < length (threads c')" and r: "role (threads c' ! u) = Unit k'"
    show "k' < length (syncs c')"
    proof (cases "u < length (threads c)")
      case True
      with r kr [of u k'] have "k' < length (syncs c)" by (simp add: old)
      then show ?thesis by (simp add: sy)
    next
      case False
      with u new [of u] S r show ?thesis by (auto simp: sy)
    qed
  next
    fix u k' assume u: "u < length (threads c')" and r: "TRecv k' \<in> set (tasks (threads c' ! u))"
    show "k' < length (syncs c')"
    proof (cases "u < length (threads c)")
      case True
      show ?thesis
      proof (cases "u = t")
        case True
        with r t old [of t] have "TRecv k' \<in> set T" by simp
        with T have "TRecv k' \<in> set (tasks (threads c ! t)) \<or> (k' = length (syncs c) \<and> Y \<noteq> [])"
          by blast
        with kt [of t k'] t show ?thesis by (auto simp: sy)
      next
        case False
        with r \<open>u < length (threads c)\<close> kt [of u k'] have "k' < length (syncs c)"
          by (simp add: old)
        then show ?thesis by (simp add: sy)
      qed
    next
      case False
      with u new [of u] S r show ?thesis by auto
    qed
  qed
  have 2: "(role (threads c' ! u) = Unit k) = (N \<le> u \<and> u < N + n)" if u: "u < length (threads c')" for u
  proof (cases "u < length (threads c)")
    case True
    then show ?thesis by (simp add: old roles)
  next
    case False
    with u new [of u] S k len show ?thesis by auto
  qed
  have 3: "TRecv k \<notin> set (tasks (threads c' ! u))" if u: "u < length (threads c')" "u \<noteq> p" for u
  proof (cases "u < length (threads c)")
    case True
    show ?thesis
    proof (cases "u = t")
      case True
      show ?thesis
      proof
        assume "TRecv k \<in> set (tasks (threads c' ! u))"
        with True t old [of t] have "TRecv k \<in> set T" by simp
        with T have "TRecv k \<in> set (tasks (threads c ! t)) \<or> k = length (syncs c)" by blast
        with norecv [of t] t k show False by auto
      qed
    next
      case False
      with \<open>u < length (threads c)\<close> u norecv [of u] show ?thesis by (simp add: old)
    qed
  next
    case False
    with u new [of u] S show ?thesis by auto
  qed
  have 4: "{i. i < n \<and> status (threads c' ! (N + i)) = Running} = {i. i < n \<and> status (threads c ! (N + i)) = Running}"
    using units by auto
  have 5: "{e. \<exists>i < n. status (threads c' ! (N + i)) = Returned (Some e)} = {e. \<exists>i < n. status (threads c ! (N + i)) = Returned (Some e)}"
    using units by auto
  show ?thesis
    unfolding par_inv_def syk 4 5
    using len lenc' k p 1 2 3 wg ch cl by (auto simp: sy)
qed

lemma known_syncsD:
  assumes "known_syncs c" and "u < length (threads c)"
  shows "role (threads c ! u) = Unit k \<Longrightarrow> k < length (syncs c)"
    and "TRecv k \<in> set (tasks (threads c ! u)) \<Longrightarrow> k < length (syncs c)"
  using assms by (auto simp: known_syncs_def)

lemma known_syncsI:
  assumes "\<And>u k. u < length (threads c) \<Longrightarrow> role (threads c ! u) = Unit k \<Longrightarrow> k < length (syncs c)"
      and "\<And>u k. u < length (threads c) \<Longrightarrow> TRecv k \<in> set (tasks (threads c ! u)) \<Longrightarrow> k < length (syncs c)"
  shows "known_syncs c"
  using assms by (auto simp: known_syncs_def)

lemma par_invI:
  assumes "N + n \<le> length (threads c)" and "k < length (syncs c)" and "p < N"
      and "known_syncs c"
      and "\<And>u. u < length (threads c) \<Longrightarrow> (role (threads c ! u) = Unit k) = (N \<le> u \<and> u < N + n)"
      and "\<And>u. u < length (threads c) \<Longrightarrow> u \<noteq> p \<Longrightarrow> TRecv k \<notin> set (tasks (threads c ! u))"
      and "wg (syncs c ! k) = card {i. i < n \<and> status (threads c ! (N + i)) = Running}"
      and "set (errChan (syncs c ! k)) = {e. \<exists>i < n. status (threads c ! (N + i)) = Returned (Some e)}"
      and "closed (syncs c ! k) \<Longrightarrow> wg (syncs c ! k) = 0"
  shows "par_inv k N n p c"
  unfolding par_inv_def using assms by blast

lemma par_invD:
  assumes "par_inv k N n p c"
  shows "N + n \<le> length (threads c)" and "k < length (syncs c)" and "p < N"
    and "known_syncs c"
    and "\<And>u. u < length (threads c) \<Longrightarrow> (role (threads c ! u) = Unit k) = (N \<le> u \<and> u < N + n)"
    and "\<And>u. u < length (threads c) \<Longrightarrow> u \<noteq> p \<Longrightarrow> TRecv k \<notin> set (tasks (threads c ! u))"
    and "wg (syncs c ! k) = card {i. i < n \<and> status (threads c ! (N + i)) = Running}"
    and "set (errChan (syncs c ! k)) = {e. \<exists>i < n. status (threads c ! (N + i)) = Returned (Some e)}"
    and "closed (syncs c ! k) \<Longrightarrow> wg (syncs c ! k) = 0"
  using assms unfolding par_inv_def by blast+

lemma par_inv_syncs_only:
  assumes inv: "par_inv k N n p c" and th: "threads c' = threads c"
      and sy: "syncs c' = (syncs c)[k' := s']"
      and s': "k' = k \<Longrightarrow> errChan s' = errChan (syncs c ! k) \<and> wg s' = wg (syncs c ! k)
                 \<and> (closed s' \<longrightarrow> wg s' = 0)"
  shows "par_inv k N n p c'"
proof -
  note d = par_invD [OF inv]
  have len: "length (syncs c') = length (syncs c)" by (simp add: sy)
  have syk: "syncs c' ! k = (if k' = k then s' else syncs c ! k)"
    using d(2) by (simp add: sy nth_list_update)
  show ?thesis
  proof (rule par_invI)
    show "N + n \<le> length (threads c')" using d(1) by (simp add: th)
    show "k < length (syncs c')" using d(2) by (simp add: len)
    show "p < N" by (rule d(3))
    show "known_syncs c'"
      using d(4) by (simp add: known_syncs_def th len)
    show "(role (threads c' ! u) = Unit k) = (N \<le> u \<and> u < N + n)" if "u < length (threads c')" for u
      using that d(5) [of u] by (simp add: th)
    show "TRecv k \<notin> set (tasks (threads c' ! u))" if "u < length (threads c')" "u \<noteq> p" for u
      using that d(6) [of u] by (simp add: th)
    show "wg (syncs c' ! k) = card {i. i < n \<and> status (threads c' ! (N + i)) = Running}"
      unfolding th syk using d(7) s' by (cases "k' = k") simp_all
    show "set (errChan (syncs c' ! k)) = {e. \<exists>i < n. status (threads c' ! (N + i)) = Returned (Some e)}"
      unfolding th syk using d(8) s' by (cases "k' = k") simp_all
    show "wg (syncs c' ! k) = 0" if "closed (syncs c' ! k)"
      using that d(9) s' unfolding syk by (cases "k' = k") simp_all
  qed
qed

lemma returned_set_update:
  fixes S S' :: "nat \<Rightarrow> status"
  assumes upd: "\<And>i. i < n \<Longrightarrow> S' i = (if i = j then Returned r else S i)"
      and j: "j < n" "S j = Running"
  shows "{e. \<exists>i<n. S' i = Returned (Some e)}
         = {e. \<exists>i<n. S i = Returned (Some e)} \<union> (case r of None \<Rightarrow> {} | Some e \<Rightarrow> {e})"
proof (rule set_eqI)
  fix e
  show "e \<in> {e. \<exists>i<n. S' i = Returned (Some e)}
        \<longleftrightarrow> e \<in> {e. \<exists>i<n. S i = Returned (Some e)} \<union> (case r of None \<Rightarrow> {} | Some e \<Rightarrow> {e})"
  proof
    assume "e \<in> {e. \<exists>i<n. S' i = Returned (Some e)}"
    then obtain i where i: "i < n" "S' i = Returned (Some e)" by auto
    show "e \<in> {e. \<exists>i<n. S i = Returned (Some e)} \<union> (case r of None \<Rightarrow> {} | Some e \<Rightarrow> {e})"
    proof (cases "i = j")
      case True
      with i upd [of i] have "r = Some e" by simp
      then show ?thesis by simp
    next
      case False
      with i upd [of i] have "S i = Returned (Some e)" by simp
      with i(1) show ?thesis by auto
    qed
  next
    assume "e \<in> {e. \<exists>i<n. S i = Returned (Some e)} \<union> (case r of None \<Rightarrow> {} | Some e \<Rightarrow> {e})"
    then consider i where "i < n" "S i = Returned (Some e)" | "r = Some e"
      by (auto split: option.splits)
    then show "e \<in> {e. \<exists>i<n. S' i = Returned (Some e)}"
    proof cases
      case 1
      with j have "i \<noteq> j" by auto
      with 1 upd [of i] have "S' i = Returned (Some e)" by simp
      with 1(1) show ?thesis by auto
    next
      case 2
      with upd [of j] j have "S' j = Returned (Some e)" by simp
      with j(1) show ?thesis by auto
    qed
  qed
qed

lemma par_inv_finish:
  assumes inv: "par_inv k N n p c" and t: "t < length (threads c)" "t \<noteq> p"
      and run: "status (threads c ! t) = Running"
  shows "par_inv k N n p (finish t r c)"
proof -
  note d = par_invD [OF inv]
  let ?ths = "(threads c)[t := (threads c ! t)\<lparr>tasks := [], status := Returned r\<rparr>]"
  let ?c1 = "c\<lparr>threads := ?ths\<rparr>"
  have old: "role (?ths ! u) = role (threads c ! u)"
            "status (?ths ! u) = (if u = t then Returned r else status (threads c ! u))"
            "tasks (?ths ! u) = (if u = t then [] else tasks (threads c ! u))"
    if "u < length (threads c)" for u
    using that t by (simp_all add: nth_list_update)
  have known1: "known_syncs ?c1"
  proof (rule known_syncsI)
    fix u k' assume "u < length (threads ?c1)" "role (threads ?c1 ! u) = Unit k'"
    then show "k' < length (syncs ?c1)" using known_syncsD(1) [OF d(4), of u k'] by (simp add: old)
  next
    fix u k' assume "u < length (threads ?c1)" "TRecv k' \<in> set (tasks (threads ?c1 ! u))"
    then show "k' < length (syncs ?c1)" using known_syncsD(2) [OF d(4), of u k']
      by (cases "u = t") (simp_all add: old)
  qed
  have roles1: "(role (?ths ! u) = Unit k) = (N \<le> u \<and> u < N + n)" if "u < length (?ths)" for u
    using that d(5) [of u] by (simp add: old)
  have norecv1: "TRecv k \<notin> set (tasks (?ths ! u))" if "u < length (?ths)" "u \<noteq> p" for u
    using that d(6) [of u] by (cases "u = t") (simp_all add: old)
  show ?thesis
  proof (cases "role (threads c ! t) = Unit k")
    case True
    with d(5) [of t] t have "N \<le> t" "t < N + n" by auto
    then obtain i0 where i0: "t = N + i0" "i0 < n"
      by (metis le_Suc_ex nat_add_left_cancel_less)
    have fin: "finish t r c = ?c1\<lparr>syncs := (syncs c)[k := sent r (syncs c ! k)]\<rparr>"
      using True by (simp add: finish_def)
    have st: "status (?ths ! (N + i)) = (if i = i0 then Returned r else status (threads c ! (N + i)))"
      if "i < n" for i
      using that d(1) i0 old(2) [of "N + i"] by simp
    let ?R = "{i. i < n \<and> status (threads c ! (N + i)) = Running}"
    have finR: "finite ?R" by simp
    have i0R: "i0 \<in> ?R" using i0 run by simp
    have R': "{i. i < n \<and> status (?ths ! (N + i)) = Running} = ?R - {i0}"
      using st by (auto split: if_splits)
    have card: "card {i. i < n \<and> status (?ths ! (N + i)) = Running} = wg (syncs c ! k) - 1"
      unfolding R' d(7) using i0R finR by simp
    have pos: "wg (syncs c ! k) \<noteq> 0"
      unfolding d(7) using i0R finR by (auto simp: card_eq_0_iff)
    have E': "{e. \<exists>i < n. status (?ths ! (N + i)) = Returned (Some e)}
              = set (errChan (syncs c ! k)) \<union> (case r of None \<Rightarrow> {} | Some e \<Rightarrow> {e})"
      unfolding d(8)
    proof (rule returned_set_update [where j = i0])
      show "status (?ths ! (N + i)) = (if i = i0 then Returned r else status (threads c ! (N + i)))"
        if "i < n" for i using that by (rule st)
      show "i0 < n" by (rule i0(2))
      show "status (threads c ! (N + i0)) = Running" using run i0(1) by simp
    qed
    have syk: "syncs (finish t r c) ! k = sent r (syncs c ! k)"
      using d(2) by (simp add: fin)
    have thr: "threads (finish t r c) = ?ths" by (simp add: fin)
    have lsy: "length (syncs (finish t r c)) = length (syncs ?c1)" by (simp add: fin)
    show ?thesis
    proof (rule par_invI)
      show "N + n \<le> length (threads (finish t r c))" using d(1) by (simp add: thr)
      show "k < length (syncs (finish t r c))" using d(2) by (simp add: lsy)
      show "p < N" by (rule d(3))
      show "known_syncs (finish t r c)"
        using known1 by (simp add: known_syncs_def thr lsy)
      show "(role (threads (finish t r c) ! u) = Unit k) = (N \<le> u \<and> u < N + n)"
        if "u < length (threads (finish t r c))" for u
        using that roles1 [of u] by (simp add: thr)
      show "TRecv k \<notin> set (tasks (threads (finish t r c) ! u))"
        if "u < length (threads (finish t r c))" "u \<noteq> p" for u
        using that norecv1 [of u] by (simp add: thr)
      show "wg (syncs (finish t r c) ! k)
            = card {i. i < n \<and> status (threads (finish t r c) ! (N + i)) = Running}"
        unfolding thr syk card by (simp add: sent_def)
      show "set (errChan (syncs (finish t r c) ! k))
            = {e. \<exists>i<n. status (threads (finish t r c) ! (N + i)) = Returned (Some e)}"
        unfolding thr syk E' by (simp add: sent_def split: option.splits)
      show "wg (syncs (finish t r c) ! k) = 0" if "closed (syncs (finish t r c) ! k)"
        using that d(9) pos unfolding syk by (simp add: sent_def)
    qed
  next
    case False
    have unit: "status (?ths ! (N + i)) = status (threads c ! (N + i))" if "i < n" for i
    proof -
      from that d(1) d(5) [of "N + i"] have "role (threads c ! (N + i)) = Unit k" by simp
      with False have "N + i \<noteq> t" by auto
      with that d(1) show ?thesis by (simp add: old)
    qed
    have 4: "{i. i < n \<and> status (?ths ! (N + i)) = Running} = {i. i < n \<and> status (threads c ! (N + i)) = Running}"
      using unit by auto
    have 5: "{e. \<exists>i < n. status (?ths ! (N + i)) = Returned (Some e)} = {e. \<exists>i < n. status (threads c ! (N + i)) = Returned (Some e)}"
      using unit by auto
    have inv1: "par_inv k N n p ?c1"
    proof (rule par_invI)
      show "N + n \<le> length (threads ?c1)" using d(1) by simp
      show "k < length (syncs ?c1)" using d(2) by simp
      show "p < N" by (rule d(3))
      show "known_syncs ?c1" by (rule known1)
      show "(role (threads ?c1 ! u) = Unit k) = (N \<le> u \<and> u < N + n)" if "u < length (threads ?c1)" for u
        using that roles1 [of u] by simp
      show "TRecv k \<notin> set (tasks (threads ?c1 ! u))" if "u < length (threads ?c1)" "u \<noteq> p" for u
        using that norecv1 [of u] by simp
      show "wg (syncs ?c1 ! k) = card {i. i < n \<and> status (threads ?c1 ! (N + i)) = Running}"
        using d(7) 4 by simp
      show "set (errChan (syncs ?c1 ! k)) = {e. \<exists>i<n. status (threads ?c1 ! (N + i)) = Returned (Some e)}"
        using d(8) 5 by simp
      show "wg (syncs ?c1 ! k) = 0" if "closed (syncs ?c1 ! k)"
        using that d(9) by simp
    qed
    show ?thesis
    proof (cases "role (threads c ! t)")
      case (Unit k')
      with False have kk: "k' \<noteq> k" by simp
      have fin: "finish t r c = ?c1\<lparr>syncs := (syncs ?c1)[k' := sent r (syncs ?c1 ! k')]\<rparr>"
        using Unit by (simp add: finish_def)
      show ?thesis
        unfolding fin
        by (rule par_inv_syncs_only [OF inv1, where k' = k' and s' = "sent r (syncs ?c1 ! k')"])
          (use kk in simp_all)
    next
      case Main
      then have "finish t r c = ?c1" by (simp add: finish_def)
      with inv1 show ?thesis by simp
    next
      case (Closer k')
      then have "finish t r c = ?c1" by (simp add: finish_def)
      with inv1 show ?thesis by simp
    qed
  qed
qed

lemma par_inv_set_tasks:
  assumes inv: "par_inv k N n p c" and t: "t < length (threads c)" "t \<noteq> p"
      and T: "\<And>k'. TRecv k' \<in> set T \<Longrightarrow> TRecv k' \<in> set (tasks (threads c ! t))"
  shows "par_inv k N n p (set_tasks t T c)"
  by (rule par_inv_tasks_update [OF inv t, where T = T and S = "[]" and Y = "[]"])
    (use T in auto)

lemma par_inv_step:
  assumes inv: "par_inv k N n p c" and st: "step h t c = Some c'" and tp: "t \<noteq> p"
  shows "par_inv k N n p c'"
  using st
proof (cases rule: step_cases)
  case (ret r)
  with inv tp show ?thesis by (simp add: par_inv_finish)
next
  case (run a ints rest nd)
  obtain T S Y where eff:
    "threads (run_node a nd ints rest t c) = (threads c)[t := (threads c ! t)\<lparr>tasks := T\<rparr>] @ S"
    "syncs (run_node a nd ints rest t c) = syncs c @ Y"
    "\<forall>k. TRecv k \<in> set T \<longrightarrow> TRecv k \<in> set rest \<or> (k = length (syncs c) \<and> Y \<noteq> [])"
    "\<forall>th \<in> set S. Y \<noteq> [] \<and> status th = Running
        \<and> (\<forall>k. role th = Unit k \<longrightarrow> k = length (syncs c))
        \<and> (\<forall>k. TRecv k \<notin> set (tasks th))"
    using run_node_effect [OF run(1), of a nd ints rest] by blast
  have "par_inv k N n p (run_node a nd ints rest t c)"
  proof (rule par_inv_tasks_update [OF inv run(1) tp eff(1) eff(2)])
    show "\<forall>k'. TRecv k' \<in> set T \<longrightarrow>
            TRecv k' \<in> set (tasks (threads c ! t)) \<or> k' = length (syncs c) \<and> Y \<noteq> []"
      using eff(3) run(3) by auto
    show "\<forall>th\<in>set S. Y \<noteq> [] \<and> status th = Running \<and>
            (\<forall>k'. role th = Unit k' \<longrightarrow> k' = length (syncs c)) \<and>
            (\<forall>k'. TRecv k' \<notin> set (tasks th))"
      by (rule eff(4))
  qed
  with run show ?thesis by simp
next
  case (recv_err k' rest e es)
  note d = par_invD [OF inv]
  from d(6) [OF recv_err(1) tp] recv_err(3) have kk: "k' \<noteq> k" by auto
  let ?c1 = "c\<lparr>syncs := (syncs c)[k' := (syncs c ! k')\<lparr>errChan := es\<rparr>]\<rparr>"
  have 1: "par_inv k N n p ?c1"
    by (rule par_inv_syncs_only [OF inv, where k' = k' and s' = "(syncs c ! k')\<lparr>errChan := es\<rparr>"])
      (use kk in simp_all)
  have "par_inv k N n p (set_tasks t [TFail e] ?c1)"
    by (rule par_inv_set_tasks [OF 1]) (use recv_err(1) tp in simp_all)
  with recv_err show ?thesis by simp
next
  case (recv_done k' rest)
  have "par_inv k N n p (set_tasks t rest c)"
    by (rule par_inv_set_tasks [OF inv recv_done(1) tp]) (use recv_done(3) in simp)
  with recv_done show ?thesis by simp
next
  case (close k' rest)
  let ?c1 = "c\<lparr>syncs := (syncs c)[k' := (syncs c ! k')\<lparr>closed := True\<rparr>]\<rparr>"
  have 1: "par_inv k N n p ?c1"
    by (rule par_inv_syncs_only [OF inv, where k' = k' and s' = "(syncs c ! k')\<lparr>closed := True\<rparr>"])
      (use close(5) in simp_all)
  have "par_inv k N n p (set_tasks t rest ?c1)"
    by (rule par_inv_set_tasks [OF 1]) (use close(1,3) tp in simp_all)
  with close show ?thesis by simp
qed

lemma par_inv_exec:
  "exec h s c = Some c' \<Longrightarrow> p \<notin> set s \<Longrightarrow> par_inv k N n p c \<Longrightarrow> par_inv k N n p c'"
proof (induction s arbitrary: c)
  case Nil
  then show ?case by simp
next
  case (Cons t s)
  then obtain c1 where st: "step h t c = Some c1" and ex: "exec h s c1 = Some c'"
    by (auto split: option.splits)
  from Cons.prems have "t \<noteq> p" "p \<notin> set s" by auto
  with Cons.IH [OF ex] par_inv_step [OF Cons.prems(3) st] show ?case by simp
qed

lemma exec_frame:
  "exec h s c = Some c' \<Longrightarrow> p \<notin> set s \<Longrightarrow> p < length (threads c) \<Longrightarrow>
   threads c' ! p = threads c ! p \<and> p < length (threads c')"
proof (induction s arbitrary: c)
  case Nil
  then show ?case by simp
next
  case (Cons t s)
  then obtain c1 where st: "step h t c = Some c1" and ex: "exec h s c1 = Some c'"
    by (auto split: option.splits)
  from Cons.prems have tp: "p \<noteq> t" "p \<notin> set s" by auto
  from step_frame [OF st] Cons.prems(3) tp(1)
  have "threads c1 ! p = threads c ! p" "p < length (threads c1)" by auto
  with Cons.IH [OF ex tp(2)] show ?case by simp
qed

lemma known_syncs_update:
  assumes known: "known_syncs c" and t: "t < length (threads c)"
      and th: "threads c' = (threads c)[t := x] @ S"
      and role: "role x = role (threads c ! t)"
      and tasks: "\<And>k'. TRecv k' \<in> set (tasks x) \<Longrightarrow>
                   TRecv k' \<in> set (tasks (threads c ! t)) \<or> k' < length (syncs c')"
      and len: "length (syncs c) \<le> length (syncs c')"
      and S: "\<And>y k'. y \<in> set S \<Longrightarrow> role y = Unit k' \<or> TRecv k' \<in> set (tasks y) \<Longrightarrow>
                k' < length (syncs c')"
  shows "known_syncs c'"
proof (rule known_syncsI)
  fix u k' assume u: "u < length (threads c')" and r: "role (threads c' ! u) = Unit k'"
  show "k' < length (syncs c')"
  proof (cases "u < length (threads c)")
    case True
    with r role have "role (threads c ! u) = Unit k'"
      by (cases "u = t") (simp_all add: th nth_append)
    with known_syncsD(1) [OF known True] len show ?thesis by force
  next
    case False
    with u have "threads c' ! u \<in> set S" by (simp add: th nth_append)
    with S r show ?thesis by blast
  qed
next
  fix u k' assume u: "u < length (threads c')" and r: "TRecv k' \<in> set (tasks (threads c' ! u))"
  show "k' < length (syncs c')"
  proof (cases "u < length (threads c)")
    case True
    show ?thesis
    proof (cases "u = t")
      case True
      with r t have "TRecv k' \<in> set (tasks x)" by (simp add: th nth_append)
      with tasks have "TRecv k' \<in> set (tasks (threads c ! t)) \<or> k' < length (syncs c')" by blast
      with known_syncsD(2) [OF known t, of k'] len show ?thesis by force
    next
      case False
      with r \<open>u < length (threads c)\<close> have "TRecv k' \<in> set (tasks (threads c ! u))"
        by (simp add: th nth_append)
      with known_syncsD(2) [OF known \<open>u < length (threads c)\<close>, of k'] len show ?thesis by force
    qed
  next
    case False
    with u have "threads c' ! u \<in> set S" by (simp add: th nth_append)
    with S r show ?thesis by blast
  qed
qed

lemma finish_syncs_length [simp]: "length (syncs (finish t r c)) = length (syncs c)"
  by (simp add: finish_def Let_def split: role.splits)

lemma known_syncs_step:
  assumes known: "known_syncs c" and st: "step h t c = Some c'"
  shows "known_syncs c'"
  using st
proof (cases rule: step_cases)
  case (ret r)
  show ?thesis
    by (rule known_syncs_update [OF known ret(1), where S = "[]"
          and x = "(threads c ! t)\<lparr>tasks := [], status := Returned r\<rparr>"])
      (simp_all add: ret finish_threads)
next
  case (run a ints rest nd)
  obtain T S Y where eff:
    "threads (run_node a nd ints rest t c) = (threads c)[t := (threads c ! t)\<lparr>tasks := T\<rparr>] @ S"
    "syncs (run_node a nd ints rest t c) = syncs c @ Y"
    "\<forall>k. TRecv k \<in> set T \<longrightarrow> TRecv k \<in> set rest \<or> (k = length (syncs c) \<and> Y \<noteq> [])"
    "\<forall>th \<in> set S. Y \<noteq> [] \<and> status th = Running
        \<and> (\<forall>k. role th = Unit k \<longrightarrow> k = length (syncs c))
        \<and> (\<forall>k. TRecv k \<notin> set (tasks th))"
    using run_node_effect [OF run(1), of a nd ints rest] by blast
  have "known_syncs (run_node a nd ints rest t c)"
  proof (rule known_syncs_update [OF known run(1) eff(1)])
    show "role ((threads c ! t)\<lparr>tasks := T\<rparr>) = role (threads c ! t)" by simp
    show "length (syncs c) \<le> length (syncs (run_node a nd ints rest t c))" by (simp add: eff(2))
    show "TRecv k' \<in> set (tasks (threads c ! t)) \<or> k' < length (syncs (run_node a nd ints rest t c))"
      if "TRecv k' \<in> set (tasks ((threads c ! t)\<lparr>tasks := T\<rparr>))" for k'
      using that eff(3) run(3) by (auto simp: eff(2))
    show "k' < length (syncs (run_node a nd ints rest t c))"
      if "y \<in> set S" "role y = Unit k' \<or> TRecv k' \<in> set (tasks y)" for y k'
      using that eff(4) by (auto simp: eff(2))
  qed
  with run show ?thesis by simp
next
  case (recv_err k' rest e es)
  show ?thesis
    by (rule known_syncs_update [OF known recv_err(1), where S = "[]"
          and x = "(threads c ! t)\<lparr>tasks := [TFail e]\<rparr>"])
      (simp_all add: recv_err)
next
  case (recv_done k' rest)
  show ?thesis
    by (rule known_syncs_update [OF known recv_done(1), where S = "[]"
          and x = "(threads c ! t)\<lparr>tasks := rest\<rparr>"])
      (simp_all add: recv_done)
next
  case (close k' rest)
  show ?thesis
    by (rule known_syncs_update [OF known close(1), where S = "[]"
          and x = "(threads c ! t)\<lparr>tasks := rest\<rparr>"])
      (simp_all add: close)
qed

lemma known_syncs_exec: "exec h s c = Some c' \<Longrightarrow> known_syncs c \<Longrightarrow> known_syncs c'"
proof (induction s arbitrary: c)
  case Nil
  then show ?case by simp
next
  case (Cons t s)
  then obtain c1 where st: "step h t c = Some c1" and ex: "exec h s c1 = Some c'"
    by (auto split: option.splits)
  from Cons.IH [OF ex] known_syncs_step [OF Cons.prems(2) st] show ?case by simp
qed

lemma known_syncs_Run: "known_syncs (Run f w)"
  by (simp add: known_syncs_def Run_def)

lemma spawn_nth:
  "i < length ns \<Longrightarrow> spawn k ints ns ! i = \<lparr>role = Unit k, tasks = call_run (ns ! i) ints, status = Running\<rparr>"
  "spawn k ints ns ! length ns = \<lparr>role = Closer k, tasks = [TWaitClose k], status = Running\<rparr>"
  "length (spawn k ints ns) = Suc (length ns)"
  by (simp_all add: spawn_def nth_append)

lemma run_parallel_threads:
  assumes p: "p < length (threads c0)"
      and pass: "run_interceptors ints (Some a) (world c0) = (None, w1, evs)"
  shows "threads (run_node a (parallelNode nm ns nx) ints rest p c0) =
           (threads c0)[p := (threads c0 ! p)\<lparr>tasks := TRecv (length (syncs c0)) # call_run nx ints @ rest\<rparr>]
           @ spawn (length (syncs c0)) ints ns"
    and "syncs (run_node a (parallelNode nm ns nx) ints rest p c0) =
           syncs c0 @ [\<lparr>errChan = [], closed = False, wg = length ns\<rparr>]"
  using assms by (simp_all add: intercepted_def list_update_append nth_append)

lemma par_inv_start:
  assumes known: "known_syncs c0" and p: "p < length (threads c0)"
      and tasks: "tasks (threads c0 ! p) = TRun a ints # rest"
      and pass: "run_interceptors ints (Some a) (world c0) = (None, w1, evs)"
  shows "par_inv (length (syncs c0)) (length (threads c0)) (length ns) p
           (run_node a (parallelNode nm ns nx) ints rest p c0)"
proof -
  define c1 where "c1 = run_node a (parallelNode nm ns nx) ints rest p c0"
  define k where "k = length (syncs c0)"
  define N where "N = length (threads c0)"
  define n where "n = length ns"
  let ?x = "(threads c0 ! p)\<lparr>tasks := TRecv k # call_run nx ints @ rest\<rparr>"
  have th: "threads c1 = (threads c0)[p := ?x] @ spawn k ints ns"
    unfolding c1_def k_def by (rule run_parallel_threads(1) [OF p pass])
  have sy: "syncs c1 = syncs c0 @ [\<lparr>errChan = [], closed = False, wg = n\<rparr>]"
    unfolding c1_def n_def by (rule run_parallel_threads(2) [OF p pass])
  have old: "threads c1 ! u = (if u = p then ?x else threads c0 ! u)" if "u < N" for u
    using that by (simp add: th nth_upd_app N_def)
  have unit: "threads c1 ! (N + i) = \<lparr>role = Unit k, tasks = call_run (ns ! i) ints, status = Running\<rparr>"
    if "i < n" for i
    using that by (simp add: th nth_append spawn_nth N_def n_def)
  have closer: "threads c1 ! (N + n) = \<lparr>role = Closer k, tasks = [TWaitClose k], status = Running\<rparr>"
    by (simp add: th nth_append spawn_nth N_def n_def)
  have len: "length (threads c1) = Suc (N + n)" by (simp add: th spawn_nth N_def n_def)
  have syk: "syncs c1 ! k = \<lparr>errChan = [], closed = False, wg = n\<rparr>" by (simp add: sy k_def)
  have split: "u < N \<or> (\<exists>i < n. u = N + i) \<or> u = N + n" if "u < length (threads c1)" for u
  proof -
    from that len have "u < Suc (N + n)" by simp
    then show ?thesis by (metis le_Suc_ex less_Suc_eq nat_add_left_cancel_less not_less)
  qed
  have oldrole: "role (threads c0 ! u) \<noteq> Unit k" if "u < N" for u
    using known_syncsD(1) [OF known, of u k] that by (auto simp: N_def k_def)
  have oldrecv: "TRecv k \<notin> set (tasks (threads c0 ! u))" if "u < N" for u
    using known_syncsD(2) [OF known, of u k] that by (auto simp: N_def k_def)
  have "par_inv k N n p c1"
  proof (rule par_invI)
    show "N + n \<le> length (threads c1)" by (simp add: len)
    show "k < length (syncs c1)" by (simp add: sy k_def)
    show "p < N" using p by (simp add: N_def)
    show "known_syncs c1"
    proof (rule known_syncs_update [OF known p th])
      show "role ?x = role (threads c0 ! p)" by simp
      show "length (syncs c0) \<le> length (syncs c1)" by (simp add: sy)
      show "TRecv k' \<in> set (tasks (threads c0 ! p)) \<or> k' < length (syncs c1)"
        if "TRecv k' \<in> set (tasks ?x)" for k'
        using that tasks by (auto simp: sy k_def call_run_no_recv)
      show "k' < length (syncs c1)"
        if "y \<in> set (spawn k ints ns)" "role y = Unit k' \<or> TRecv k' \<in> set (tasks y)" for y k'
        using that by (auto simp: spawn_def sy k_def call_run_no_recv)
    qed
    show "(role (threads c1 ! u) = Unit k) = (N \<le> u \<and> u < N + n)" if "u < length (threads c1)" for u
      using split [OF that] oldrole [of u] by (auto simp: old unit closer split: if_splits)
    show "TRecv k \<notin> set (tasks (threads c1 ! u))" if "u < length (threads c1)" "u \<noteq> p" for u
      using split [OF that(1)] that(2) oldrecv [of u]
      by (auto simp: old unit closer call_run_no_recv split: if_splits)
    show "wg (syncs c1 ! k) = card {i. i < n \<and> status (threads c1 ! (N + i)) = Running}"
    proof -
      have "{i. i < n \<and> status (threads c1 ! (N + i)) = Running} = {..<n}"
        using unit by auto
      then show ?thesis by (simp add: syk)
    qed
    show "set (errChan (syncs c1 ! k)) = {e. \<exists>i<n. status (threads c1 ! (N + i)) = Returned (Some e)}"
      using unit by (auto simp: syk)
    show "wg (syncs c1 ! k) = 0" if "closed (syncs c1 ! k)"
      using that by (simp add: syk)
  qed
  then show ?thesis by (simp only: c1_def k_def N_def n_def)
qed

section \<open>The empty flow\<close>

lemma exec_empty_flow:
  assumes "h f = Some (Flow nm None tln fis nis)"
  shows "exec h [0, 0] (Run f w) =
    Some \<lparr>world = w, trace = [],
          threads = [\<lparr>role = Main, tasks = [], status = Returned None\<rparr>], syncs = []\<rparr>"
  using assms by (simp add: step_def Run_def set_tasks_def finish_def)

lemma exec_empty_flow_all:
  assumes "h f = Some (Flow nm None tln fis nis)" and "exec h sched (Run f w) = Some c"
  shows "sched \<in> {[], [0], [0, 0]} \<and> world c = w \<and> trace c = []"
proof (cases sched)
  case Nil
  with assms show ?thesis by (auto simp: Run_def)
next
  case (Cons t1 s1)
  with assms have t1: "t1 = 0"
    by (auto simp: step_def Run_def split: if_splits option.splits)
  show ?thesis
  proof (cases s1)
    case Nil
    with Cons assms t1 show ?thesis by (auto simp: step_def Run_def set_tasks_def)
  next
    case s1: (Cons t2 s2)
    with Cons assms t1 have t2: "t2 = 0"
      by (auto simp: step_def Run_def set_tasks_def split: if_splits option.splits)
    show ?thesis
    proof (cases s2)
      case Nil
      with Cons s1 assms t1 t2 show ?thesis
        by (auto simp: step_def Run_def set_tasks_def finish_def)
    next
      case (Cons t3 s3)
      with s1 \<open>sched = t1 # s1\<close> assms t1 t2 show ?thesis
        by (auto simp: step_def Run_def set_tasks_def finish_def split: if_splits)
    qed
  qed
qed

text \<open>
  Claim C8. A flow whose head is unset returns success from \<open>Run\<close> and does no work: the
  caller takes the step of \<open>Run\<close> and then returns \<open>nil\<close>; whatever the schedule, the world
  is untouched and the trace stays empty, so no flow-level interceptor, no node-level
  interceptor and no node function is called, whatever the interceptor lists hold.
\<close>

theorem empty_flow_Run:
  assumes "h f = Some (Flow nm None tln fis nis)"
  shows "exec h [0, 0] (Run f w) =
           Some \<lparr>world = w, trace = [],
                 threads = [\<lparr>role = Main, tasks = [], status = Returned None\<rparr>], syncs = []\<rparr>
         \<and> (\<forall>sched c. exec h sched (Run f w) = Some c \<longrightarrow>
               sched \<in> {[], [0], [0, 0]} \<and> world c = w \<and> trace c = [])"
proof -
  note run = exec_empty_flow [where h = h and f = f, OF assms]
  note all = exec_empty_flow_all [where h = h and f = f, OF assms]
  show ?thesis using run all by blast
qed

theorem empty_flow_Run_witness:
  "empty_heap 0 = Some (Flow ''empty'' None None [refuse] [refuse])
   \<and> map_option observe
       (exec empty_heap [0, 0] (Run 0 (7::nat))) = Some (7, [], [Returned None])"
  using empty_flow_Run [of empty_heap 0 "''empty''" None "[refuse]" "[refuse]" 7]
  by (simp add: empty_heap_def observe_def)

section \<open>Flow-level interceptors\<close>

text \<open>
  Claim C6. In a flow with a head, let the flow-level interceptors \<open>pre\<close> pass and the
  next one, \<open>i\<close>, fail with \<open>e\<close>. Then \<open>Run\<close> returns \<open>e\<close>; the calls made are those of
  \<open>pre\<close> and \<open>i\<close>, each with the \<open>nil\<close> node argument, so none of the later interceptors
  \<open>post\<close> runs; and no schedule goes further than these two steps or adds anything
  to the trace, so neither the head node nor any other node runs.
\<close>

theorem flow_interceptor_failure:
  assumes flow: "h f = Some (Flow nm (Some a) tln (pre @ i # post) nis)"
      and pre: "run_interceptors pre None w = (None, w1, evs1)"
      and fail: "call i w1 None = (Some e, w2)"
  shows "exec h [0, 0] (Run f w) =
           Some \<lparr>world = w2, trace = map (\<lambda>j. Intercepted (label j) None) (pre @ [i]),
                 threads = [\<lparr>role = Main, tasks = [], status = Returned (Some e)\<rparr>],
                 syncs = []\<rparr>
         \<and> (\<forall>sched c. exec h sched (Run f w) = Some c \<longrightarrow>
               sched \<in> {[], [0], [0, 0]} \<and>
               set (trace c) \<subseteq> (\<lambda>j. Intercepted (label j) None) ` set (pre @ [i]))"
proof -
  let ?tr = "map (\<lambda>j. Intercepted (label j) None) (pre @ [i])"
  let ?c1 = "\<lparr>world = w2, trace = ?tr,
               threads = [\<lparr>role = Main, tasks = [TFail e], status = Running\<rparr>], syncs = []\<rparr>"
  let ?c2 = "\<lparr>world = w2, trace = ?tr,
               threads = [\<lparr>role = Main, tasks = [], status = Returned (Some e)\<rparr>], syncs = []\<rparr>"
  note ri = run_interceptors_fails_at [OF pre fail, of post]
  have st1: "step h 0 (Run f w) = Some ?c1"
    using flow ri by (simp add: step_def Run_def intercepted_def set_tasks_def)
  have st2: "step h 0 ?c1 = Some ?c2"
    by (simp add: step_def finish_def)
  have run: "exec h [0, 0] (Run f w) = Some ?c2"
    using st1 st2 by simp
  have all: "sched \<in> {[], [0], [0, 0]} \<and> set (trace c) \<subseteq> set ?tr"
    if ex: "exec h sched (Run f w) = Some c" for sched c
  proof -
    have "sched = [] \<and> c = Run f w \<or> sched = [0] \<and> c = ?c1 \<or> sched = [0, 0] \<and> c = ?c2"
    proof (rule exec_at_most_two [where h = h])
      show "step h 0 (Run f w) = Some ?c1" by (rule st1)
      show "step h 0 ?c1 = Some ?c2" by (rule st2)
      show "exec h sched (Run f w) = Some c" by (rule ex)
      show "step h t (Run f w) = None" if "t \<noteq> 0" for t
        using that by (simp add: step_solo Run_def)
      show "step h t ?c1 = None" if "t \<noteq> 0" for t
        using that by (simp add: step_solo)
      show "step h t ?c2 = None" for t
        by (cases t) (simp_all add: step_def)
    qed
    then show ?thesis by (auto simp: Run_def)
  qed
  show ?thesis using run all by (simp del: exec.simps map_append set_append)
qed

theorem flow_interceptor_failure_witness:
  "guarded_heap 0 = Some (Flow ''guarded'' (Some 1) (Some 1) ([pass ''first''] @ refuse # [pass ''late'']) [])
   \<and> run_interceptors [pass ''first''] None (0::nat) = (None, 0, [Intercepted ''first'' None])
   \<and> call refuse 0 None = (Some ''refused'', 1)
   \<and> map_option observe
         (exec guarded_heap [0, 0] (Run 0 0))
       = Some (1, [Intercepted ''first'' None, Intercepted ''refuse'' None],
               [Returned (Some ''refused'')])"
  using flow_interceptor_failure [of guarded_heap 0 "''guarded''" 1 "Some 1" "[pass ''first'']"
      refuse "[pass ''late'']" "[]" 0 0 "[Intercepted ''first'' None]" "''refused''" 1]
  by (simp add: guarded_heap_def pass_def refuse_def observe_def)

section \<open>A flow run as a node\<close>

text \<open>
  Claim C9. When a thread calls \<open>f.run(ctx, ints)\<close> on a \<open>Flow\<close> (as a sub-node of a
  sequence or parallel node or as the branch of a conditional: each of them makes this
  call), the list \<open>ints\<close> handed down by the parent is never read: the step is the same
  for any other list \<open>ints'\<close>. With a head, the flow calls its own flow-level
  interceptors with the \<open>nil\<close> node argument and then runs its head with its own
  node-level interceptors \<open>nis\<close>, so these, not the parent's, are the ones applied
  along its chain; without a head it does nothing.
\<close>

theorem nested_flow_run:
  assumes tid: "tid < length (threads c)" and run: "status (threads c ! tid) = Running"
      and tasks: "tasks (threads c ! tid) = TRun a ints # rest"
      and flow: "h a = Some (Flow nm hdn tln fis nis)"
  shows "step h tid (set_tasks tid (TRun a ints' # rest) c) = step h tid c
       \<and> step h tid c =
           Some (case hdn of
                   None \<Rightarrow> set_tasks tid rest c
                 | Some b \<Rightarrow>
                     (case run_interceptors fis None (world c) of
                        (Some e, w, evs) \<Rightarrow>
                          set_tasks tid [TFail e] (c\<lparr>world := w, trace := trace c @ evs\<rparr>)
                      | (None, w, evs) \<Rightarrow>
                          set_tasks tid (TRun b nis # rest)
                            (c\<lparr>world := w,
                               trace := trace c @ map (\<lambda>i. Intercepted (label i) None) fis\<rparr>)))"
proof -
  have 1: "step h tid (set_tasks tid (TRun a ints' # rest) c) = step h tid c"
    using assms
    by (auto simp: step_def set_tasks_def intercepted_def split: option.splits prod.splits)
  have 2: "step h tid c = Some (run_node a (Flow nm hdn tln fis nis) ints rest tid c)"
    using assms by (simp add: step_TRun)
  show ?thesis unfolding 1 2
    by (auto simp: intercepted_def split: option.splits prod.splits
        dest: run_interceptors_ok_events)
qed

theorem nested_flow_run_witness:
  "0 < length (threads nested_call) \<and> status (threads nested_call ! 0) = Running
   \<and> tasks (threads nested_call ! 0) = TRun 2 [pass ''outer''] # []
   \<and> nested_heap 2 = Some (Flow ''inner'' (Some 3) (Some 3) [pass ''innerflow''] [pass ''inner''])
   \<and> step nested_heap 0 (set_tasks 0 (TRun 2 [refuse] # []) nested_call)
       = step nested_heap 0 nested_call
   \<and> step nested_heap 0 nested_call =
       Some \<lparr>world = 0, trace = [Intercepted ''innerflow'' None],
             threads = [\<lparr>role = Main, tasks = [TRun 3 [pass ''inner'']], status = Running\<rparr>],
             syncs = []\<rparr>"
  using nested_flow_run [of 0 nested_call 2 "[pass ''outer'']" "[]" nested_heap "''inner''"
      "Some 3" "Some 3" "[pass ''innerflow'']" "[pass ''inner'']" "[refuse]"]
  by (simp add: nested_heap_def nested_call_def pass_def)

section \<open>Conditional nodes\<close>

text \<open>
  Claim C4. A thread runs a conditional node whose interceptors pass and whose predicate
  returns \<open>b\<close>. The branch is called exactly when \<open>b\<close> holds and the branch is not \<open>nil\<close>;
  in every case the call of the node's own next comes after it, before what the thread
  had left (\<open>rest\<close>). With a false predicate or a \<open>nil\<close> branch nothing is put before
  the next node: a pass-through. The three other conjuncts say what this order means.
  A step of the thread only replaces its first task by new ones in front of the others,
  so the branch and all it calls run to their end before the next node starts, unless
  the step fails: then a single \<open>TFail e\<close> replaces everything, the next node included,
  and with it the thread returns \<open>e\<close>. No other thread touches the tasks of this one.
\<close>

theorem conditional_run:
  assumes tid: "tid < length (threads c)" and run: "status (threads c ! tid) = Running"
      and tasks: "tasks (threads c ! tid) = TRun a ints # rest"
      and node: "h a = Some (conditionalNode nm cnd tb nx)"
      and ints: "run_interceptors ints (Some a) (world c) = (None, w1, evs)"
      and cnd: "cnd w1 = (b, w2)"
  shows "step h tid c =
           Some (set_tasks tid
                  ((if b \<and> tb \<noteq> None then [TRun (the tb) ints] else [])
                   @ call_run nx ints @ rest)
                  (c\<lparr>world := w2, trace := trace c @ evs @ [Tested a b]\<rparr>))
       \<and> (\<forall>c1 c2 t ts. step h tid c1 = Some c2 \<and> tasks (threads c1 ! tid) = t # ts \<longrightarrow>
            (\<exists>e. tasks (threads c2 ! tid) = [TFail e])
            \<or> (\<exists>new. tasks (threads c2 ! tid) = new @ ts)
            \<or> (\<exists>r. status (threads c2 ! tid) = Returned r))
       \<and> (\<forall>c1 c2 e. step h tid c1 = Some c2 \<and> tasks (threads c1 ! tid) = [TFail e] \<longrightarrow>
            status (threads c2 ! tid) = Returned (Some e))
       \<and> (\<forall>c1 c2 t'. step h t' c1 = Some c2 \<and> t' \<noteq> tid \<and> tid < length (threads c1) \<longrightarrow>
            threads c2 ! tid = threads c1 ! tid)"
proof -
  have 1: "step h tid c = Some (run_node a (conditionalNode nm cnd tb nx) ints rest tid c)"
    using assms by (simp add: step_TRun)
  have 2: "run_node a (conditionalNode nm cnd tb nx) ints rest tid c =
     set_tasks tid ((if b \<and> tb \<noteq> None then [TRun (the tb) ints] else []) @ call_run nx ints @ rest)
                  (c\<lparr>world := w2, trace := trace c @ evs @ [Tested a b]\<rparr>)"
    using ints cnd by (cases tb) (simp_all add: intercepted_def)
  have 3: "(\<exists>e. tasks (threads c2 ! tid) = [TFail e])
            \<or> (\<exists>new. tasks (threads c2 ! tid) = new @ ts)
            \<or> (\<exists>r. status (threads c2 ! tid) = Returned r)"
    if "step h tid c1 = Some c2" "tasks (threads c1 ! tid) = t # ts" for c1 c2 t ts
    using that by (rule step_tasks_stack)
  have 4: "status (threads c2 ! tid) = Returned (Some e)"
    if "step h tid c1 = Some c2" "tasks (threads c1 ! tid) = [TFail e]" for c1 c2 e
    using that by (auto simp: step_def finish_threads split: if_splits)
  have 5: "threads c2 ! tid = threads c1 ! tid"
    if "step h t' c1 = Some c2" "t' \<noteq> tid" "tid < length (threads c1)" for c1 c2 t'
    using step_frame(2) [OF that(1) that(3)] that(2) by simp
  show ?thesis unfolding 1 2 using 3 4 5 by blast
qed

theorem conditional_run_witness:
  "0 < length (threads cond_call) \<and> status (threads cond_call ! 0) = Running
   \<and> tasks (threads cond_call ! 0) = TRun 1 [pass ''log''] # []
   \<and> cond_heap 1 = Some (conditionalNode ''c'' is_zero (Some 2) (Some 4))
   \<and> run_interceptors [pass ''log''] (Some 1) (world cond_call)
       = (None, 0, [Intercepted ''log'' (Some 1)])
   \<and> is_zero 0 = (True, 0)
   \<and> step cond_heap 0 cond_call =
       Some \<lparr>world = 0, trace = [Intercepted ''log'' (Some 1), Tested 1 True],
             threads = [\<lparr>role = Main, tasks = [TRun 2 [pass ''log''], TRun 4 [pass ''log'']],
                         status = Running\<rparr>],
             syncs = []\<rparr>"
  using conditional_run [of 0 cond_call 1 "[pass ''log'']" "[]" cond_heap "''c''"
      is_zero "Some 2" "Some 4" 0 "[Intercepted ''log'' (Some 1)]" True 0]
  by (simp add: cond_heap_def cond_call_def pass_def is_zero_def)

section \<open>Node-level interceptors\<close>

text \<open>
  Claim C7 as stated fails. The flow \<open>outer\<close> has the node-level interceptor \<open>outer\<close>; its
  conditional node 1 has as branch the flow \<open>inner\<close> (address 2), whose chain is the action
  node 3. The run below succeeds and node 3 does its work, but \<open>outer\<close> is never called
  for node 3 (nor for the flow at address 2, which is run as a node): inside a nested
  flow only that flow's own node-level interceptors fire.
\<close>

theorem nested_flow_escapes_outer_interceptor:
  "map_option observe (exec nested_heap [0, 0, 0, 0, 0] (Run 0 0)) =
     Some (1, [Intercepted ''outer'' (Some 1), Tested 1 True, Intercepted ''innerflow'' None,
               Intercepted ''inner'' (Some 3), Acted 3], [Returned None])
   \<and> count_list [Intercepted ''outer'' (Some 1), Tested 1 True, Intercepted ''innerflow'' None,
               Intercepted ''inner'' (Some 3), Acted 3] (Intercepted ''outer'' (Some 3)) = 0"
  by (simp add: Run_def step_def set_tasks_def intercepted_def finish_def
      pass_def bump_def always_def observe_def nested_heap_def)

text \<open>
  Claim C7, amended. Whenever a thread runs an action, conditional or parallel node with
  an interceptor list \<open>ints\<close> that passes, each interceptor of \<open>ints\<close> is called exactly
  once with that node, in list order, and the node's own work (the call of the action's
  function, the evaluation of the predicate, the start of the units) comes after these
  calls. The list is handed on unchanged: every call of \<open>run\<close> that the step adds to the
  thread (successor, branch, sub-nodes of a sequence) and every unit it starts carries
  \<open>ints\<close>, except that a nested flow hands its own node-level list to its head.
\<close>

theorem node_interceptors_once_per_visit:
  assumes tid: "tid < length (threads c)" and run: "status (threads c ! tid) = Running"
      and tasks: "tasks (threads c ! tid) = TRun a ints # rest"
      and node: "h a = Some n"
      and pass: "run_interceptors ints (Some a) (world c) = (None, w1, evs)"
      and c': "c' = run_node a n ints rest tid c"
  shows "step h tid c = Some c'
       \<and> (is_doNode n \<longrightarrow>
            trace c' = trace c @ map (\<lambda>i. Intercepted (label i) (Some a)) ints @ [Acted a])
       \<and> (is_conditionalNode n \<longrightarrow>
            (\<exists>b. trace c' = trace c @ map (\<lambda>i. Intercepted (label i) (Some a)) ints @ [Tested a b]))
       \<and> (is_parallelNode n \<longrightarrow>
            trace c' = trace c @ map (\<lambda>i. Intercepted (label i) (Some a)) ints)
       \<and> ((\<exists>e. tasks (threads c' ! tid) = [TFail e])
          \<or> (\<exists>new. tasks (threads c' ! tid) = new @ rest
                \<and> (\<forall>b j. TRun b j \<in> set new \<longrightarrow>
                      j = (if is_Flow n then nodeInterceptors n else ints))))
       \<and> (\<forall>i b j. length (threads c) \<le> i \<and> i < length (threads c')
                  \<and> TRun b j \<in> set (tasks (threads c' ! i)) \<longrightarrow> j = ints)"
proof -
  note evs = run_interceptors_ok_events [OF pass]
  have 1: "step h tid c = Some c'"
    using tid run tasks node c' by (simp add: step_TRun)
  have 2: "trace c' = trace c @ map (\<lambda>i. Intercepted (label i) (Some a)) ints @ [Acted a]"
    if "is_doNode n"
    using that pass evs c' by (cases n) (auto simp: intercepted_def split: prod.splits option.splits)
  have 3: "\<exists>b. trace c' = trace c @ map (\<lambda>i. Intercepted (label i) (Some a)) ints @ [Tested a b]"
    if "is_conditionalNode n"
    using that pass evs c' by (cases n) (auto simp: intercepted_def split: prod.splits option.splits)
  have 4: "trace c' = trace c @ map (\<lambda>i. Intercepted (label i) (Some a)) ints"
    if "is_parallelNode n"
    using that pass evs c' by (cases n) (auto simp: intercepted_def split: prod.splits option.splits)
  have 5: "(\<exists>e. tasks (threads c' ! tid) = [TFail e])
          \<or> (\<exists>new. tasks (threads c' ! tid) = new @ rest
                \<and> (\<forall>b j. TRun b j \<in> set new \<longrightarrow>
                      j = (if is_Flow n then nodeInterceptors n else ints)))"
  proof (cases n)
    case (doNode nm f nx)
    with pass c' tid show ?thesis
      by (auto simp: intercepted_def nth_append split: prod.splits option.splits dest: call_run_ints)
  next
    case (conditionalNode nm cnd tb nx)
    with pass c' tid show ?thesis
      by (auto simp: intercepted_def nth_append split: prod.splits option.splits dest: call_run_ints)
  next
    case (sequenceNode nm ns nx)
    with c' tid have "tasks (threads c' ! tid) = (concat (map (\<lambda>n. call_run n ints) ns) @ call_run nx ints) @ rest"
      by simp
    moreover have "\<forall>b j. TRun b j \<in> set (concat (map (\<lambda>n. call_run n ints) ns) @ call_run nx ints) \<longrightarrow> j = ints"
      by (auto dest: call_run_ints)
    ultimately show ?thesis using sequenceNode by auto
  next
    case (parallelNode nm ns nx)
    with pass c' tid have "tasks (threads c' ! tid) = (TRecv (length (syncs c)) # call_run nx ints) @ rest"
      by (auto simp: intercepted_def nth_append)
    moreover have "\<forall>b j. TRun b j \<in> set (TRecv (length (syncs c)) # call_run nx ints) \<longrightarrow> j = ints"
      by (auto dest: call_run_ints)
    ultimately show ?thesis using parallelNode by auto
  next
    case (Flow nm hdn tln fis nis)
    show ?thesis
    proof (cases hdn)
      case None
      with Flow c' tid have "tasks (threads c' ! tid) = [] @ rest" by simp
      moreover have "\<forall>b' j. TRun b' j \<in> set ([] :: 'a task list) \<longrightarrow>
          j = (if is_Flow n then nodeInterceptors n else ints)" by simp
      ultimately show ?thesis by blast
    next
      case (Some b)
      with Flow c' tid have "(\<exists>e. tasks (threads c' ! tid) = [TFail e]) \<or> tasks (threads c' ! tid) = [TRun b nis] @ rest"
        by (auto simp: intercepted_def split: prod.splits option.splits)
      moreover have "\<forall>b' j. TRun b' j \<in> set [TRun b nis] \<longrightarrow> j = (if is_Flow n then nodeInterceptors n else ints)"
        using Flow by simp
      ultimately show ?thesis by blast
    qed
  qed
  have 6: "j = ints"
    if "length (threads c) \<le> i" "i < length (threads c')" "TRun b j \<in> set (tasks (threads c' ! i))"
    for i b j
  proof (cases n)
    case (parallelNode nm ns nx)
    with c' pass tid have thr: "threads c' =
        (threads c)[tid := (threads c ! tid)\<lparr>tasks := TRecv (length (syncs c)) # call_run nx ints @ rest\<rparr>]
        @ spawn (length (syncs c)) ints ns"
      by (simp add: intercepted_def list_update_append nth_append)
    with that have "i - length (threads c) < length (spawn (length (syncs c)) ints ns)"
      and "TRun b j \<in> set (tasks (spawn (length (syncs c)) ints ns ! (i - length (threads c))))"
      by (auto simp: nth_append)
    then show ?thesis by (rule spawn_ints)
  qed (use that c' pass tid in \<open>auto simp: intercepted_def split: prod.splits option.splits\<close>)
  show ?thesis using 1 2 3 4 5 6 by blast
qed

theorem node_interceptors_once_per_visit_witness:
  "0 < length (threads par_call) \<and> status (threads par_call ! 0) = Running
   \<and> tasks (threads par_call ! 0) = TRun 1 [pass ''log'', pass ''audit''] # []
   \<and> par_heap 1 = Some (parallelNode ''p'' [Some 2, Some 3] None)
   \<and> run_interceptors [pass ''log'', pass ''audit''] (Some 1) (world par_call)
       = (None, 0, [Intercepted ''log'' (Some 1), Intercepted ''audit'' (Some 1)])
   \<and> step par_heap 0 par_call
       = Some (run_node 1 (parallelNode ''p'' [Some 2, Some 3] None)
                 [pass ''log'', pass ''audit''] [] 0 par_call)
   \<and> trace (run_node 1 (parallelNode ''p'' [Some 2, Some 3] None)
                 [pass ''log'', pass ''audit''] [] 0 par_call)
       = [Intercepted ''log'' (Some 1), Intercepted ''audit'' (Some 1)]"
  using node_interceptors_once_per_visit [of 0 par_call 1 "[pass ''log'', pass ''audit'']" "[]"
      par_heap "parallelNode ''p'' [Some 2, Some 3] None" 0
      "[Intercepted ''log'' (Some 1), Intercepted ''audit'' (Some 1)]"
      "run_node 1 (parallelNode ''p'' [Some 2, Some 3] None)
         [pass ''log'', pass ''audit''] [] 0 par_call"]
  by (simp add: par_heap_def par_call_def pass_def)

section \<open>Parallel nodes: returning before the units end\<close>

text \<open>
  Claim C1, on the flow \<open>InParallel("p", A, B)\<close> where \<open>A\<close> fails at once. Threads 1 and 2
  are the units of \<open>A\<close> and \<open>B\<close>, thread 3 closes the channel. After the unit of \<open>A\<close> has
  sent its error, the loop over the channel in \<open>parallelNode.run\<close> receives it and
  returns it: \<open>Run\<close> has returned \<open>boom\<close> while the unit of \<open>B\<close> has not started and the
  closing goroutine still waits. \<open>B\<close> does its work afterwards, as the longer schedule
  shows.
\<close>

theorem parallel_returns_before_units_finish:
  "map_option observe (exec par_heap [0, 0, 1, 1, 0, 0] (Run 0 0)) =
     Some (0, [Acted 2], [Returned (Some ''boom''), Returned (Some ''boom''), Running, Running])
   \<and> map_option observe (exec par_heap [0, 0, 1, 1, 0, 0, 2, 2, 3, 3] (Run 0 0)) =
     Some (1, [Acted 2, Acted 3],
           [Returned (Some ''boom''), Returned (Some ''boom''), Returned None, Returned None])"
  by (simp add: Run_def step_def set_tasks_def intercepted_def spawn_def finish_def sent_def
      bump_def boom_def observe_def par_heap_def)

section \<open>Sequence and parallel nodes without sub-nodes\<close>

text \<open>
  Claim C10, on a flow with the node-level interceptor \<open>log\<close> and the chain: an empty
  sequence node (address 1), an empty parallel node (address 2), an action (address 3).
  Both constructors drop \<open>nil\<close> arguments, both nodes succeed without sub-node work and
  go on to their next node. The parallel node calls the interceptor for itself first;
  the sequence node does not: \<open>sequenceNode.run\<close> has no interceptor loop, and \<open>log\<close> is
  never called for node 1.
\<close>

theorem empty_sequence_skips_interceptors:
  "InSequence ''s'' [None, None] = sequenceNode ''s'' [] None
   \<and> InParallel ''p'' [] = parallelNode ''p'' [] None
   \<and> map_option observe (exec seq_heap [0, 0, 0, 1, 1, 0, 0, 0] (Run 0 0)) =
     Some (1, [Intercepted ''log'' (Some 2), Intercepted ''log'' (Some 3), Acted 3],
           [Returned None, Returned None])"
  by (simp add: Run_def step_def set_tasks_def intercepted_def spawn_def finish_def sent_def
      pass_def bump_def observe_def seq_heap_def InSequence_def InParallel_def)

section \<open>A chain of action nodes\<close>

text \<open>
  Claim C3. The chain of the flow consists of the action nodes \<open>pre @ k # post\<close>. The
  flow-level interceptors pass, the actions \<open>pre\<close> succeed (with the node-level
  interceptors, which pass for them and for \<open>k\<close>), and the function of \<open>k\<close> fails with \<open>e\<close>.
  Then \<open>Run\<close> returns \<open>e\<close> itself; the functions called are those of \<open>pre\<close> and then \<open>k\<close>, in
  this order, and the addresses of the chain are distinct, so each action before \<open>k\<close> ran
  exactly once; and whatever the schedule, it is a prefix of this run and no action of
  \<open>post\<close> is ever called.
\<close>

theorem action_chain_failure:
  assumes flow: "h f = Some (Flow nm (Some a) tln fis nis)"
      and chain: "do_chain h (Some a) (pre @ k # post)"
      and fi: "run_interceptors fis None w = (None, w0, evs0)"
      and ok: "acts_ok h nis pre w0 = Some (w1, evs1)"
      and ki: "run_interceptors nis (Some k) w1 = (None, w2, evs2)"
      and kf: "h k = Some (doNode knm kfn knx)" "kfn w2 = (Some e, w3)"
  shows "exec h (replicate (length pre + 3) 0) (Run f w) =
           Some \<lparr>world = w3, trace = evs0 @ evs1 @ evs2 @ [Acted k],
                 threads = [\<lparr>role = Main, tasks = [], status = Returned (Some e)\<rparr>],
                 syncs = []\<rparr>
       \<and> actions (evs0 @ evs1 @ evs2 @ [Acted k]) = pre @ [k]
       \<and> distinct (pre @ k # post)
       \<and> (\<forall>sched c. exec h sched (Run f w) = Some c \<longrightarrow>
            (\<exists>m \<le> length pre + 3. sched = replicate m 0)
            \<and> (\<forall>b \<in> set post. Acted b \<notin> set (trace c)))"
proof -
  let ?c1 = "\<lparr>world = w0, trace = evs0,
              threads = [\<lparr>role = Main, tasks = [TRun a nis], status = Running\<rparr>], syncs = []\<rparr>"
  let ?c2 = "\<lparr>world = w1, trace = evs0 @ evs1,
              threads = [\<lparr>role = Main, tasks = [TRun k nis], status = Running\<rparr>], syncs = []\<rparr>"
  let ?c3 = "\<lparr>world = w3, trace = evs0 @ evs1 @ evs2 @ [Acted k],
              threads = [\<lparr>role = Main, tasks = [TFail e], status = Running\<rparr>], syncs = []\<rparr>"
  let ?c4 = "\<lparr>world = w3, trace = evs0 @ evs1 @ evs2 @ [Acted k],
              threads = [\<lparr>role = Main, tasks = [], status = Returned (Some e)\<rparr>], syncs = []\<rparr>"
  have s1: "exec h [0] (Run f w) = Some ?c1"
    using flow fi by (simp add: Run_def step_def intercepted_def set_tasks_def)
  have s2: "exec h (replicate (length pre) 0) ?c1 = Some ?c2"
    using exec_actions [OF chain ok, of evs0] by simp
  have s3: "exec h [0, 0] ?c2 = Some ?c4"
    using kf ki by (simp add: step_def intercepted_def set_tasks_def finish_def)
  have rep: "replicate (length pre + 3) (0::nat) = [0] @ replicate (length pre) 0 @ [0, 0]"
    by (simp add: replicate_plus_3)
  have run: "exec h (replicate (length pre + 3) 0) (Run f w) = Some ?c4"
    unfolding rep using s1 s2 s3 by (simp only: exec_append option.case)
  have act: "actions (evs0 @ evs1 @ evs2 @ [Acted k]) = pre @ [k]"
    using run_interceptors_ok_events [OF fi] run_interceptors_ok_events [OF ki]
      acts_ok_events [OF ok] by simp
  have dist: "distinct (pre @ k # post)"
    using chain_distinct [OF do_chain_chain [OF chain]] .
  have stuck: "step h t ?c4 = None" for t
    by (cases t) (simp_all add: step_def)
  have all: "(\<exists>m \<le> length pre + 3. sched = replicate m 0)
            \<and> (\<forall>b \<in> set post. Acted b \<notin> set (trace c))"
    if ex: "exec h sched (Run f w) = Some c" for sched c
  proof -
    from solo_deterministic [OF run _ stuck ex]
    obtain m where m: "m \<le> length pre + 3" "sched = replicate m 0" by auto
    have "replicate (length pre + 3) (0::nat) = replicate m 0 @ replicate (length pre + 3 - m) 0"
      using m(1) by (simp add: replicate_add [symmetric])
    with run ex m(2) have "exec h (replicate (length pre + 3 - m) 0) c = Some ?c4"
      by (simp add: exec_append)
    then have sub: "set (trace c) \<subseteq> set (trace ?c4)" by (rule exec_trace_mono)
    have "Acted b \<notin> set (trace c)" if b: "b \<in> set post" for b
    proof
      assume "Acted b \<in> set (trace c)"
      with sub have "Acted b \<in> set (evs0 @ evs1 @ evs2 @ [Acted k])" by auto
      then have "b \<in> set (actions (evs0 @ evs1 @ evs2 @ [Acted k]))"
        by (simp only: actions_set)
      with act dist b show False by auto
    qed
    with m show ?thesis by blast
  qed
  show ?thesis using run act dist all by blast
qed

theorem action_chain_failure_witness:
  "chain_heap 0 = Some (Flow ''f'' (Some 1) (Some 4) [] [pass ''log''])
   \<and> do_chain chain_heap (Some 1) ([1, 2] @ 3 # [4])
   \<and> run_interceptors [] None (0::nat) = (None, 0, [])
   \<and> acts_ok chain_heap [pass ''log''] [1, 2] 0
       = Some (2, [Intercepted ''log'' (Some 1), Acted 1, Intercepted ''log'' (Some 2), Acted 2])
   \<and> run_interceptors [pass ''log''] (Some 3) (2::nat) = (None, 2, [Intercepted ''log'' (Some 3)])
   \<and> chain_heap 3 = Some (doNode ''c'' boom (Some 4)) \<and> boom 2 = (Some ''boom'', 2)
   \<and> map_option observe (exec chain_heap [0, 0, 0, 0, 0] (Run 0 0))
       = Some (2, [Intercepted ''log'' (Some 1), Acted 1, Intercepted ''log'' (Some 2), Acted 2,
                   Intercepted ''log'' (Some 3), Acted 3], [Returned (Some ''boom'')])"
  using action_chain_failure [of chain_heap 0 "''f''" 1 "Some 4" "[]" "[pass ''log'']" "[1, 2]" 3
      "[4]" 0 0 "[]" 2 "[Intercepted ''log'' (Some 1), Acted 1, Intercepted ''log'' (Some 2), Acted 2]"
      2 "[Intercepted ''log'' (Some 3)]" "''c''" boom "Some 4" "''boom''" 2]
  by (simp add: chain_heap_def pass_def bump_def boom_def observe_def eval_nat_numeral)

section \<open>Splicing a flow with \<open>Then\<close>\<close>

text \<open>
  Claim C5. Flow 1 (at \<open>f\<close>) and flow 2 (at \<open>g\<close>, with a head) satisfy the invariants of the
  data model: the chain of each is a simple chain that ends in \<open>nil\<close>, the tail is its
  last node, and the two chains share no node. Then \<open>Then(flow2)\<close> returns, and in the new
  store: flow 1 keeps its name and both interceptor lists; its head is unchanged, or
  is the head of flow 2 if flow 1 was empty; the next of the old tail of flow 1, which
  was \<open>nil\<close>, is the head of flow 2; the new tail is the tail of flow 2; the chain of
  flow 1 is the old one followed by that of flow 2, so its length is the sum; nothing
  else in the store changes. Running the old tail node now is running it as before
  with the call of the head of flow 2 put right behind it, with the same interceptor
  list: the nodes of flow 2 are run after those of flow 1, with the node-level
  interceptors of flow 1.
\<close>

theorem then_splices_flow:
  assumes f: "h f = Some (Flow nm hdn tln fis nis)"
      and g: "h g = Some (Flow gnm (Some gh) gtl gfis gnis)"
      and c1: "chain h hdn as1" and t1: "as1 \<noteq> [] \<longrightarrow> tln = Some (last as1)"
      and c2: "chain h (Some gh) as2" and t2: "gtl = Some (last as2)"
      and disj: "set as1 \<inter> set as2 = {}"
  shows "\<exists>h'. Then h f (Some g) = Some h'
       \<and> h' f = Some (Flow nm (if as1 = [] then Some gh else hdn) (Some (last (as1 @ as2))) fis nis)
       \<and> chain h' (if as1 = [] then Some gh else hdn) (as1 @ as2)
       \<and> length (as1 @ as2) = length as1 + length as2
       \<and> (as1 \<noteq> [] \<longrightarrow>
            link h (last as1) = Some None \<and> link h' (last as1) = Some (Some gh)
            \<and> (\<forall>n. h (last as1) = Some n \<longrightarrow>
                  h' (last as1) = Some (set_nxt n (Some gh))
                  \<and> (\<forall>ints rest tid c.
                        run_node (last as1) (set_nxt n (Some gh)) ints rest tid c
                        = run_node (last as1) n ints (TRun gh ints # rest) tid c)))
       \<and> (\<forall>a. a \<noteq> f \<and> (as1 = [] \<or> a \<noteq> last as1) \<longrightarrow> h' a = h a)"
proof -
  have lf: "link h f = None" using f by (simp add: link_def)
  have lg: "link h g = None" using g by (simp add: link_def)
  have as2: "as2 \<noteq> []" using c2 by (cases as2) auto
  then have last: "last (as1 @ as2) = last as2" by simp
  have nf: "a \<noteq> f" if "a \<in> set as1 \<union> set as2" for a
    using that chain_link [OF c1, of a] chain_link [OF c2, of a] lf by auto
  have ng: "a \<noteq> g" if "a \<in> set as1 \<union> set as2" for a
    using that chain_link [OF c1, of a] chain_link [OF c2, of a] lg by auto
  have thn: "Then h f (Some g) = appendFlow h f g"
    using g by (simp add: Then_def)
  show ?thesis
  proof (cases "as1 = []")
    case True
    with c1 have hdn: "hdn = None" by (cases hdn) auto
    let ?h' = "h(f \<mapsto> Flow nm (Some gh) gtl fis nis)"
    have app: "appendFlow h f g = Some ?h'"
      using f g hdn by (simp add: appendFlow_def)
    have "chain ?h' (Some gh) as2"
      using c2 by (rule chain_frame) (use nf in \<open>auto simp: link_upd_other\<close>)
    with True thn app t2 last show ?thesis by (intro exI [of _ ?h']) simp
  next
    case False
    define t where "t = last as1"
    from False t1 have tln: "tln = Some t" by (simp add: t_def)
    from False c1 obtain b where hdn: "hdn = Some b" by (cases hdn) auto
    have tin: "t \<in> set as1" using False by (simp add: t_def)
    from chain_last [OF c1 False] have lt: "link h t = Some None" by (simp add: t_def)
    then obtain n where n: "h t = Some n" "\<not> is_Flow n" "nxt n = None"
      by (auto simp: link_Some)
    have tf: "t \<noteq> f" and tg: "t \<noteq> g" using nf [of t] ng [of t] tin by auto
    let ?h1 = "h(t \<mapsto> set_nxt n (Some gh))"
    let ?h' = "?h1(f \<mapsto> Flow nm hdn gtl fis nis)"
    have sn: "setNext h t (Some gh) = Some ?h1"
      using n by (simp add: setNext_node)
    have app: "appendFlow h f g = Some ?h'"
      using f g hdn tln sn tf tg by (simp add: appendFlow_def set_tail_def)
    have lt': "link ?h' t = Some (Some gh)"
      using tf n by (simp add: link_Some)
    have dist: "distinct as1" using c1 by (rule chain_distinct)
    have c2': "chain ?h' (Some gh) as2"
    proof (rule chain_frame [OF c2])
      fix a assume a: "a \<in> set as2"
      with disj tin have "a \<noteq> t" by auto
      moreover from a nf have "a \<noteq> f" by auto
      ultimately show "link ?h' a = link h a" by (simp add: link_upd_other)
    qed
    have ch: "chain ?h' hdn (as1 @ as2)"
    proof (rule chain_splice [OF c1 False])
      show "link ?h' (last as1) = Some (Some gh)" using lt' by (simp add: t_def)
      show "chain ?h' (Some gh) as2" by (rule c2')
      fix a assume a: "a \<in> set (butlast as1)"
      then have "a \<in> set as1" by (rule in_set_butlastD)
      with nf have "a \<noteq> f" by auto
      moreover have "a \<noteq> t"
        using a dist False unfolding t_def
        by (metis append_butlast_last_id distinct_append disjoint_iff list.set_intros(1))
      ultimately show "link ?h' a = link h a" by (simp add: link_upd_other)
    qed
    have rn: "run_node t (set_nxt n (Some gh)) ints rest tid c
                = run_node t n ints (TRun gh ints # rest) tid c" for ints rest tid c
      using n(2,3) by (rule run_node_set_nxt)
    have "Then h f (Some g) = Some ?h'" using thn app by simp
    moreover have "?h' f = Some (Flow nm (if as1 = [] then Some gh else hdn) (Some (last (as1 @ as2))) fis nis)"
      using False t2 last by simp
    moreover have "chain ?h' (if as1 = [] then Some gh else hdn) (as1 @ as2)"
      using False ch by simp
    moreover have "link h (last as1) = Some None \<and> link ?h' (last as1) = Some (Some gh)
            \<and> (\<forall>n. h (last as1) = Some n \<longrightarrow>
                  ?h' (last as1) = Some (set_nxt n (Some gh))
                  \<and> (\<forall>ints rest tid c.
                        run_node (last as1) (set_nxt n (Some gh)) ints rest tid c
                        = run_node (last as1) n ints (TRun gh ints # rest) tid c))"
      using lt lt' n(1) tf rn unfolding t_def [symmetric] by simp
    moreover have "\<forall>a. a \<noteq> f \<and> (as1 = [] \<or> a \<noteq> last as1) \<longrightarrow> ?h' a = h a"
      using False by (simp add: t_def)
    ultimately show ?thesis by (intro exI [of _ ?h']) simp
  qed
qed

theorem then_splices_flow_witness:
  "splice_heap 0 = Some (Flow ''f'' (Some 1) (Some 2) [] [pass ''one''])
   \<and> splice_heap 5 = Some (Flow ''g'' (Some 6) (Some 7) [pass ''gflow''] [pass ''two''])
   \<and> chain splice_heap (Some 1) [1, 2] \<and> Some 2 = Some (last [1, 2::nat])
   \<and> chain splice_heap (Some 6) [6, 7] \<and> Some 7 = Some (last [6, 7::nat])
   \<and> set [1, 2::nat] \<inter> set [6, 7] = {}
   \<and> Then splice_heap 0 (Some 5) = Some spliced_heap
   \<and> chain spliced_heap (Some 1) ([1, 2] @ [6, 7])
   \<and> map_option observe (exec spliced_heap [0, 0, 0, 0, 0, 0] (Run 0 0))
       = Some (4, [Intercepted ''one'' (Some 1), Acted 1, Intercepted ''one'' (Some 2), Acted 2,
                   Intercepted ''one'' (Some 6), Acted 6, Intercepted ''one'' (Some 7), Acted 7],
               [Returned None])"
proof -
  have hyps: "splice_heap 0 = Some (Flow ''f'' (Some 1) (Some 2) [] [pass ''one''])"
    "splice_heap 5 = Some (Flow ''g'' (Some 6) (Some 7) [pass ''gflow''] [pass ''two''])"
    "chain splice_heap (Some 1) [1, 2]" "[1, 2] \<noteq> [] \<longrightarrow> Some (2::nat) = Some (last [1, 2])"
    "chain splice_heap (Some 6) [6, 7]" "Some 7 = Some (last [6, 7::nat])"
    "set [1, 2::nat] \<inter> set [6, 7] = {}"
    by (simp_all add: splice_heap_def link_def)
  have eq: "Then splice_heap 0 (Some 5) = Some spliced_heap"
    by (auto simp: Then_def appendFlow_def set_tail_def setNext.simps splice_heap_def
        spliced_heap_def fun_eq_iff)
  from then_splices_flow [OF hyps] eq
  have ch: "chain spliced_heap (Some 1) ([1, 2] @ [6, 7])" by auto
  have run: "map_option observe (exec spliced_heap [0, 0, 0, 0, 0, 0] (Run 0 0))
       = Some (4, [Intercepted ''one'' (Some 1), Acted 1, Intercepted ''one'' (Some 2), Acted 2,
                   Intercepted ''one'' (Some 6), Acted 6, Intercepted ''one'' (Some 7), Acted 7],
               [Returned None])"
    by (simp add: Run_def step_def set_tasks_def intercepted_def finish_def
        pass_def bump_def observe_def spliced_heap_def)
  have tl: "Some (2::nat) = Some (last [1, 2])" by simp
  from hyps(1-3) tl hyps(5-7) eq ch run show ?thesis by blast
qed

section \<open>Parallel nodes: which error is returned\<close>

text \<open>
  Claim C2. In any configuration reached from \<open>Run\<close>, let thread \<open>p\<close> run a parallel node
  whose interceptors pass. Its step starts one unit per sub-node, each running that
  sub-node with the same interceptors, and leaves \<open>p\<close> in the receive loop. Let the other
  threads then take any steps, in any order, and let \<open>p\<close> take its next step: it leaves
  the loop. Then one of two things holds. Either \<open>p\<close> is left with \<open>return e\<close> alone, which
  is its next step, and \<open>e\<close> is the error with which one of the units has returned: the
  error of a failed sub-node, never \<open>nil\<close> and never another value. Or every unit has
  returned \<open>nil\<close>, so no sub-node has failed, and \<open>p\<close> goes on with the node's own next
  (if any) and then with what it had left.
\<close>

theorem parallel_returns_one_failure:
  assumes reach: "exec h s0 (Run f w) = Some c0"
      and p: "p < length (threads c0)" "status (threads c0 ! p) = Running"
             "tasks (threads c0 ! p) = TRun a ints # rest"
      and node: "h a = Some (parallelNode nm ns nx)"
      and pass: "run_interceptors ints (Some a) (world c0) = (None, w1, evs)"
      and st1: "step h p c0 = Some c1"
      and others: "exec h s1 c1 = Some c2" "p \<notin> set s1"
      and st2: "step h p c2 = Some c3"
  shows "(\<forall>i < length ns.
            threads c1 ! (length (threads c0) + i)
            = \<lparr>role = Unit (length (syncs c0)), tasks = call_run (ns ! i) ints, status = Running\<rparr>)
       \<and> tasks (threads c1 ! p) = TRecv (length (syncs c0)) # call_run nx ints @ rest
       \<and> ((\<exists>e i. i < length ns
                \<and> status (threads c2 ! (length (threads c0) + i)) = Returned (Some e)
                \<and> tasks (threads c3 ! p) = [TFail e]
                \<and> step h p c3 = Some (finish p (Some e) c3)
                \<and> status (threads (finish p (Some e) c3) ! p) = Returned (Some e))
          \<or> ((\<forall>i < length ns. status (threads c2 ! (length (threads c0) + i)) = Returned None)
              \<and> tasks (threads c3 ! p) = call_run nx ints @ rest))"
proof -
  define k where "k = length (syncs c0)"
  define N where "N = length (threads c0)"
  define n where "n = length ns"
  define K where "K = call_run nx ints @ rest"
  have known: "known_syncs c0"
    using reach known_syncs_Run by (rule known_syncs_exec)
  have c1: "c1 = run_node a (parallelNode nm ns nx) ints rest p c0"
    using st1 p node by (simp add: step_TRun)
  have th1: "threads c1 = (threads c0)[p := (threads c0 ! p)\<lparr>tasks := TRecv k # K\<rparr>] @ spawn k ints ns"
    unfolding c1 k_def K_def by (rule run_parallel_threads(1) [OF p(1) pass])
  have units: "threads c1 ! (N + i) = \<lparr>role = Unit k, tasks = call_run (ns ! i) ints, status = Running\<rparr>"
    if "i < n" for i
    using that by (simp add: th1 nth_append spawn_nth N_def n_def)
  have p1: "tasks (threads c1 ! p) = TRecv k # K" "status (threads c1 ! p) = Running"
    "p < length (threads c1)"
    using p(1,2) by (simp_all add: th1 nth_append)
  have inv1: "par_inv k N n p c1"
    unfolding c1 k_def N_def n_def by (rule par_inv_start [OF known p(1) p(3) pass])
  have inv2: "par_inv k N n p c2"
    using others inv1 by (rule par_inv_exec)
  note d = par_invD [OF inv2]
  from exec_frame [OF others p1(3)] p1
  have p2: "tasks (threads c2 ! p) = TRecv k # K" "status (threads c2 ! p) = Running"
    "p < length (threads c2)" by simp_all
  have out: "(\<exists>e i. i < n \<and> status (threads c2 ! (N + i)) = Returned (Some e)
                \<and> tasks (threads c3 ! p) = [TFail e]
                \<and> step h p c3 = Some (finish p (Some e) c3)
                \<and> status (threads (finish p (Some e) c3) ! p) = Returned (Some e))
          \<or> ((\<forall>i < n. status (threads c2 ! (N + i)) = Returned None)
              \<and> tasks (threads c3 ! p) = K)"
  proof (cases "errChan (syncs c2 ! k)")
    case (Cons e es)
    with st2 p2 d(2) have c3: "tasks (threads c3 ! p) = [TFail e]"
      "status (threads c3 ! p) = Running" "p < length (threads c3)"
      by (auto simp: step_def)
    then have "step h p c3 = Some (finish p (Some e) c3)"
      "status (threads (finish p (Some e) c3) ! p) = Returned (Some e)"
      by (simp_all add: step_def finish_threads)
    moreover note c3(1)
    moreover from Cons have "e \<in> set (errChan (syncs c2 ! k))" by simp
    then obtain i where "i < n" "status (threads c2 ! (N + i)) = Returned (Some e)"
      unfolding d(8) by auto
    ultimately show ?thesis by blast
  next
    case Nil
    with st2 p2 d(2) have cl: "closed (syncs c2 ! k)" and K: "tasks (threads c3 ! p) = K"
      by (auto simp: step_def split: if_splits)
    from d(9) [OF cl] have "card {i. i < n \<and> status (threads c2 ! (N + i)) = Running} = 0"
      by (simp add: d(7))
    then have norun: "{i. i < n \<and> status (threads c2 ! (N + i)) = Running} = {}" by simp
    from Nil have noerr: "{e. \<exists>i<n. status (threads c2 ! (N + i)) = Returned (Some e)} = {}"
      using d(8) by simp
    have "status (threads c2 ! (N + i)) = Returned None" if "i < n" for i
    proof (cases "status (threads c2 ! (N + i))")
      case Running
      with that norun show ?thesis by blast
    next
      case (Returned r)
      with that noerr show ?thesis by (cases r) blast+
    qed
    with K show ?thesis by blast
  qed
  show ?thesis
    using units p1(1) out unfolding k_def N_def n_def K_def by blast
qed

theorem parallel_returns_one_failure_witness:
  "exec fail2_heap [0] (Run 0 0) = Some fail2_c0
   \<and> 0 < length (threads fail2_c0) \<and> status (threads fail2_c0 ! 0) = Running
   \<and> tasks (threads fail2_c0 ! 0) = TRun 1 [] # []
   \<and> fail2_heap 1 = Some (parallelNode ''p'' [Some 2, Some 3] (Some 4))
   \<and> run_interceptors [] (Some 1) (world fail2_c0) = (None, 0, [])
   \<and> step fail2_heap 0 fail2_c0 = Some fail2_c1
   \<and> exec fail2_heap [2, 2, 1, 1] fail2_c1 = Some fail2_c2
   \<and> step fail2_heap 0 fail2_c2 = Some fail2_c3
   \<and> status (threads fail2_c2 ! 1) = Returned (Some ''A'')
   \<and> status (threads fail2_c2 ! 2) = Returned (Some ''B'')
   \<and> tasks (threads fail2_c3 ! 0) = [TFail ''B'']"
proof -
  have reach: "exec fail2_heap [0] (Run 0 0) = Some fail2_c0"
    by (simp add: fail2_heap_def fail2_c0_def Run_def step_def intercepted_def set_tasks_def)
  have p: "0 < length (threads fail2_c0)" "status (threads fail2_c0 ! 0) = Running"
    "tasks (threads fail2_c0 ! 0) = TRun 1 [] # []"
    by (simp_all add: fail2_c0_def)
  have node: "fail2_heap 1 = Some (parallelNode ''p'' [Some 2, Some 3] (Some 4))"
    by (simp add: fail2_heap_def)
  have pass: "run_interceptors [] (Some 1) (world fail2_c0) = (None, 0, [])"
    by (simp add: fail2_c0_def)
  have st1: "step fail2_heap 0 fail2_c0 = Some fail2_c1"
    by (simp add: fail2_heap_def fail2_c0_def fail2_c1_def step_def intercepted_def
        set_tasks_def spawn_def)
  have others: "exec fail2_heap [2, 2, 1, 1] fail2_c1 = Some fail2_c2" "0 \<notin> set [2, 2, 1, 1::nat]"
    by (simp_all add: fail2_heap_def fail2_c1_def fail2_c2_def step_def intercepted_def
        set_tasks_def finish_def sent_def failing_def)
  have st2: "step fail2_heap 0 fail2_c2 = Some fail2_c3"
    by (simp add: fail2_c2_def fail2_c3_def step_def set_tasks_def)
  have obs: "status (threads fail2_c2 ! 1) = Returned (Some ''A'')"
    "status (threads fail2_c2 ! 2) = Returned (Some ''B'')"
    by (simp_all add: fail2_c2_def)
  from parallel_returns_one_failure [OF reach p node pass st1 others st2]
  have "tasks (threads fail2_c3 ! 0) = [TFail ''A'']
        \<or> tasks (threads fail2_c3 ! 0) = [TFail ''B'']"
    by (auto simp: fail2_c0_def fail2_c2_def less_Suc_eq numeral_2_eq_2)
  moreover have "tasks (threads fail2_c3 ! 0) \<noteq> [TFail ''A'']"
    by (simp add: fail2_c3_def)
  ultimately have "tasks (threads fail2_c3 ! 0) = [TFail ''B'']" by blast
  with reach p node pass st1 others(1) st2 obs show ?thesis by blast
qed

end
